theory Spec2Isabelle
  imports Complex_Main "HOL-Library.Word"
begin

unbundle bit_operations_syntax

section \<open>The offline raster-to-vector tracer (src/services/offlineTracer.ts)\<close>

text \<open>
  The tracer has two stages. \<open>processOnGPU\<close> uploads the decoded image as a texture, runs
  the fragment shader \<open>PACKED_OPTIMIZED_SHADER\<close> (5x5 blur, per-channel quantization, edge
  flag) over a full-screen quad and reads the frame buffer back into a byte array.
  \<open>traceImageOffline\<close> repacks the bytes into 24-bit colours, collects the distinct
  non-zero colours and, per colour, scans rows for horizontal runs which it writes as
  rectangles of an SVG path.

  Conventions of the embedding:
  \<^item> \<open>Uint8Array\<close> elements are \<open>8 word\<close>, \<open>Uint32Array\<close> elements and the packed
    colours are \<open>32 word\<close>;
  \<^item> widths, heights and loop indices are \<open>nat\<close>; \<open>startX\<close>, whose sentinel is \<open>-1\<close>,
    and the numbers printed into the path are \<open>int\<close>;
  \<^item> \<open>simplification\<close> is an \<open>int\<close> (the caller passes the value of an integer slider);
  \<^item> the shader's \<open>highp float\<close> arithmetic is modelled by exact rational arithmetic;
  \<^item> a JavaScript \<open>Set\<close> iterates in insertion order, so it is a list without duplicates
    to which new members are appended;
  \<^item> the rejections of the promise are values of type \<open>error\<close>.
\<close>

subsection \<open>Numbers in template literals\<close>

text \<open>\<open>`${n}`\<close> for an integral number: decimal digits, a leading minus sign when negative.\<close>

definition digit :: "nat \<Rightarrow> char" where
  "digit d = ''0123456789'' ! d"

function show_nat :: "nat \<Rightarrow> string" where
  "show_nat n = (if n < 10 then [digit n] else show_nat (n div 10) @ [digit (n mod 10)])"
  by pat_completeness auto
termination
  by (relation "measure id") auto

definition toString :: "int \<Rightarrow> string" where
  "toString i = (if i < 0 then CHR ''-'' # show_nat (nat (- i)) else show_nat (nat i))"

subsection \<open>The fragment shader\<close>

type_synonym u8 = "8 word"
type_synonym u32 = "32 word"
type_synonym vec2 = "rat \<times> rat"
type_synonym vec3 = "rat \<times> rat \<times> rat"

definition vadd :: "vec3 \<Rightarrow> vec3 \<Rightarrow> vec3" where
  "vadd a b = (case a of (a1, a2, a3) \<Rightarrow> case b of (b1, b2, b3) \<Rightarrow> (a1 + b1, a2 + b2, a3 + b3))"

definition vscale :: "vec3 \<Rightarrow> rat \<Rightarrow> vec3" where
  "vscale a k = (case a of (a1, a2, a3) \<Rightarrow> (a1 * k, a2 * k, a3 * k))"

text \<open>\<open>dot(c, vec3(0.299, 0.587, 0.114))\<close>\<close>

definition luminance :: "vec3 \<Rightarrow> rat" where
  "luminance c = (case c of (r, g, b) \<Rightarrow> r * (299 / 1000) + g * (587 / 1000) + b * (114 / 1000))"

text \<open>
  \<open>floor(color * 255.0 / u_qFactor + 0.5) * u_qFactor / 255.0\<close>, which GLSL applies to each
  component of the vector; \<open>quantize1\<close> is the computation on one component.
\<close>

definition quantize1 :: "int \<Rightarrow> rat \<Rightarrow> rat" where
  "quantize1 u_qFactor c =
     of_int \<lfloor>c * 255 / of_int u_qFactor + 1 / 2\<rfloor> * of_int u_qFactor / 255"

definition quantize :: "int \<Rightarrow> vec3 \<Rightarrow> vec3" where
  "quantize u_qFactor color =
     (case color of (r, g, b) \<Rightarrow>
        (quantize1 u_qFactor r, quantize1 u_qFactor g, quantize1 u_qFactor b))"

text \<open>The array \<open>w\<close> of \<open>main\<close>: the 25 weights, row by row.\<close>

definition w_kernel :: "rat list" where
  "w_kernel =
     [3 / 1000, 13 / 1000, 22 / 1000, 13 / 1000, 3 / 1000,
      13 / 1000, 59 / 1000, 97 / 1000, 59 / 1000, 13 / 1000,
      22 / 1000, 97 / 1000, 159 / 1000, 97 / 1000, 22 / 1000,
      13 / 1000, 59 / 1000, 97 / 1000, 59 / 1000, 13 / 1000,
      3 / 1000, 13 / 1000, 22 / 1000, 13 / 1000, 3 / 1000]"

text \<open>
  The decoded image: \<open>naturalWidth\<close>, \<open>naturalHeight\<close> and its RGBA samples, row by row
  from the top row, each row from the left.
\<close>

record image =
  naturalWidth :: nat
  naturalHeight :: nat
  samples :: "(u8 \<times> u8 \<times> u8 \<times> u8) list"

text \<open>
  \<open>texImage2D\<close> with \<open>UNPACK_FLIP_Y_WEBGL = false\<close> (the source sets it so before the
  upload) transfers the image's upper left sample first (WebGL specification, \<open>texImage2D\<close>
  from a \<open>TexImageSource\<close>), and the first sample transferred is the texel at texture
  coordinates \<open>(0, 0)\<close> (OpenGL ES 3.0 specification, texture image specification): texel
  row \<open>ty\<close> is image row \<open>ty\<close> counted from the top. The \<open>.rgb\<close> of a texel is its three
  bytes divided by 255 (\<open>UNPACK_PREMULTIPLY_ALPHA_WEBGL\<close> keeps its default, false).
\<close>

definition texel :: "image \<Rightarrow> nat \<Rightarrow> nat \<Rightarrow> vec3" where
  "texel img tx ty =
     (case samples img ! (ty * naturalWidth img + tx) of
        (r, g, b, a) \<Rightarrow> (of_nat (unat r) / 255, of_nat (unat g) / 255, of_nat (unat b) / 255))"

text \<open>
  \<open>texture(u_image, coord).rgb\<close> under \<open>TEXTURE_MIN_FILTER = TEXTURE_MAG_FILTER = LINEAR\<close>
  and \<open>TEXTURE_WRAP_S = TEXTURE_WRAP_T = CLAMP_TO_EDGE\<close>: along each axis of \<open>n\<close> texels
  the two taps are \<open>floor(s * n - 1/2)\<close> and its successor, both clamped to \<open>0 .. n - 1\<close>,
  blended by the fractional part.
\<close>

definition clamp_index :: "nat \<Rightarrow> int \<Rightarrow> nat" where
  "clamp_index n i = nat (max 0 (min (int n - 1) i))"

definition taps :: "nat \<Rightarrow> rat \<Rightarrow> nat \<times> nat \<times> rat" where
  "taps n s =
     (let u = s * of_nat n - 1 / 2; i0 = \<lfloor>u\<rfloor>
      in (clamp_index n i0, clamp_index n (i0 + 1), u - of_int i0))"

definition mix :: "vec3 \<Rightarrow> vec3 \<Rightarrow> rat \<Rightarrow> vec3" where
  "mix a b f = vadd (vscale a (1 - f)) (vscale b f)"

definition texture :: "image \<Rightarrow> vec2 \<Rightarrow> vec3" where
  "texture img coord =
     (case coord of (s, t) \<Rightarrow>
        case taps (naturalWidth img) s of (x0, x1, fx) \<Rightarrow>
        case taps (naturalHeight img) t of (y0, y1, fy) \<Rightarrow>
          mix (mix (texel img x0 y0) (texel img x1 y0) fx)
              (mix (texel img x0 y1) (texel img x1 y1) fx) fy)"

text \<open>
  The two nested loops of \<open>main\<close> over \<open>j\<close> and \<open>i\<close> from \<open>-2\<close> to \<open>2\<close>, accumulating
  into \<open>blurred\<close>; \<open>px = 1.0 / u_resolution\<close>.
\<close>

definition blur_tap :: "image \<Rightarrow> vec2 \<Rightarrow> vec2 \<Rightarrow> int \<Rightarrow> int \<Rightarrow> vec3 \<Rightarrow> vec3" where
  "blur_tap img v_texCoord px j i blurred =
     (let idx = nat ((j + 2) * 5 + (i + 2))
      in vadd blurred
           (vscale (texture img (fst v_texCoord + of_int i * fst px,
                                 snd v_texCoord + of_int j * snd px))
                   (w_kernel ! idx)))"

definition blur :: "image \<Rightarrow> vec2 \<Rightarrow> vec2 \<Rightarrow> vec3" where
  "blur img v_texCoord px =
     fold (\<lambda>j. fold (blur_tap img v_texCoord px j) [-2, -1, 0, 1, 2]) [-2, -1, 0, 1, 2] (0, 0, 0)"

text \<open>\<open>main\<close>: the colour \<open>qColor\<close> and the edge flag written to \<open>fragColor\<close>.\<close>

definition fragment_main :: "image \<Rightarrow> vec2 \<Rightarrow> int \<Rightarrow> vec2 \<Rightarrow> vec3 \<times> rat" where
  "fragment_main u_image u_resolution u_qFactor v_texCoord =
     (let px = (1 / fst u_resolution, 1 / snd u_resolution);
          qColor = quantize u_qFactor (blur u_image v_texCoord px);
          sLeft = luminance (quantize u_qFactor
                    (texture u_image (fst v_texCoord - fst px, snd v_texCoord)));
          sRight = luminance (quantize u_qFactor
                    (texture u_image (fst v_texCoord + fst px, snd v_texCoord)));
          sUp = luminance (quantize u_qFactor
                    (texture u_image (fst v_texCoord, snd v_texCoord - snd px)));
          sDown = luminance (quantize u_qFactor
                    (texture u_image (fst v_texCoord, snd v_texCoord + snd px)));
          edge = \<bar>sLeft - sRight\<bar> + \<bar>sUp - sDown\<bar>
      in (qColor, if edge > 1 / 100 then 1 else 0))"

subsection \<open>Rendering and read-back (\<open>processOnGPU\<close>)\<close>

text \<open>
  The quad covers the whole viewport \<open>(0, 0, width, height)\<close> and pairs the position
  \<open>(-1, -1)\<close>, the lower left corner of the frame buffer, with the texture coordinates
  \<open>(0, 0)\<close> and \<open>(1, 1)\<close> with \<open>(1, 1)\<close>. The fragment of the frame-buffer pixel in column \<open>fx\<close>
  and row \<open>fy\<close> (rows counted from the bottom, as window coordinates are) therefore
  receives the texture coordinates of that pixel's centre.
\<close>

definition v_texCoord :: "nat \<Rightarrow> nat \<Rightarrow> nat \<Rightarrow> nat \<Rightarrow> vec2" where
  "v_texCoord width height fx fy =
     ((of_nat fx + 1 / 2) / of_nat width, (of_nat fy + 1 / 2) / of_nat height)"

text \<open>
  A component of \<open>fragColor\<close> stored in the 8-bit normalized frame buffer: clamped to
  \<open>[0, 1]\<close>, scaled by 255 and rounded.
\<close>

definition to_unorm8 :: "rat \<Rightarrow> u8" where
  "to_unorm8 f = word_of_int (round (max 0 (min 1 f) * 255))"

definition fragColor :: "image \<Rightarrow> int \<Rightarrow> nat \<Rightarrow> nat \<Rightarrow> u8 list" where
  "fragColor img u_qFactor fx fy =
     (let width = naturalWidth img; height = naturalHeight img
      in case fragment_main img (of_nat width, of_nat height) u_qFactor
                (v_texCoord width height fx fy) of
           ((r, g, b), a) \<Rightarrow> [to_unorm8 r, to_unorm8 g, to_unorm8 b, to_unorm8 a])"

text \<open>
  \<open>readPixels(0, 0, width, height, RGBA, UNSIGNED_BYTE, packedData)\<close>: four bytes per
  pixel, rows from the bottom row of the frame buffer upwards, each row from the left
  (OpenGL ES 3.0 specification, reading pixels: \<open>(x, y)\<close> is the lower left corner of the
  rectangle and the rows are returned from the lowest on).
\<close>

definition readPixels :: "image \<Rightarrow> int \<Rightarrow> u8 list" where
  "readPixels img u_qFactor =
     concat (map (\<lambda>fy. concat (map (\<lambda>fx. fragColor img u_qFactor fx fy)
                                   [0..<naturalWidth img]))
                 [0..<naturalHeight img])"

datatype error = ImageLoadError | WebGL2NotSupported | ShaderCompileFailed

text \<open>
  What the browser provides in one run: the URL that \<open>URL.createObjectURL\<close> returns for
  the file (a fresh one at every call), whether \<open>getContext('webgl2')\<close> returns a context,
  and whether \<open>createProgram\<close> returns a program for the two shaders.
\<close>

record env =
  objectURL :: string
  webgl2 :: bool
  shaders :: bool

definition qFactor :: "int \<Rightarrow> int" where
  "qFactor simplification = max 4 (simplification div 3)"

definition processOnGPU :: "env \<Rightarrow> image \<Rightarrow> int \<Rightarrow> error + (u8 list \<times> nat \<times> nat)" where
  "processOnGPU e img simplification =
     (if \<not> webgl2 e then Inl WebGL2NotSupported
      else if \<not> shaders e then Inl ShaderCompileFailed
      else Inr (readPixels img (qFactor simplification), naturalWidth img, naturalHeight img))"

subsection \<open>Repacking the read-back bytes\<close>

text \<open>
  \<open>packedData[i]\<close> as an operand of \<open><<\<close> or \<open>|\<close>: the byte, or 0 where the index is
  outside the array (\<open>undefined\<close> converts to 0).
\<close>

definition byteAt :: "u8 list \<Rightarrow> nat \<Rightarrow> u32" where
  "byteAt packedData i = (if i < length packedData then ucast (packedData ! i) else 0)"

definition packedColorAt :: "u8 list \<Rightarrow> nat \<Rightarrow> u32" where
  "packedColorAt packedData srcIdx =
     push_bit 16 (byteAt packedData srcIdx) OR push_bit 8 (byteAt packedData (srcIdx + 1))
       OR byteAt packedData (srcIdx + 2)"

text \<open>\<open>uniqueColors.add(c)\<close>\<close>

definition set_add :: "u32 list \<Rightarrow> u32 \<Rightarrow> u32 list" where
  "set_add s c = (if c \<in> set s then s else s @ [c])"

text \<open>The body of the inner loop, on the pair \<open>(quantizedColors, uniqueColors)\<close>.\<close>

definition repack_pixel ::
  "u8 list \<Rightarrow> nat \<Rightarrow> nat \<Rightarrow> nat \<Rightarrow> u32 list \<times> u32 list \<Rightarrow> u32 list \<times> u32 list" where
  "repack_pixel packedData width y x st =
     (case st of (quantizedColors, uniqueColors) \<Rightarrow>
        let rowOffset = y * width;
            srcIdx = (y * width + x) * 4;
            packedColor = packedColorAt packedData srcIdx
        in (quantizedColors[rowOffset + x := packedColor],
            if packedColor \<noteq> 0 then set_add uniqueColors packedColor else uniqueColors))"

definition repack :: "u8 list \<Rightarrow> nat \<Rightarrow> nat \<Rightarrow> u32 list \<times> u32 list" where
  "repack packedData width height =
     fold (\<lambda>y. fold (repack_pixel packedData width y) [0..<width]) [0..<height]
       (replicate (width * height) 0, [])"

subsection \<open>The scanline vectorizer\<close>

definition rowStep :: "int \<Rightarrow> nat" where
  "rowStep simplification = nat (max 1 (simplification div 20))"

text \<open>\<open>quantizedColors[i]\<close>; \<open>None\<close> is \<open>undefined\<close>, which is \<open>===\<close> to no colour.\<close>

definition pixelAt :: "u32 list \<Rightarrow> nat \<Rightarrow> u32 option" where
  "pixelAt quantizedColors i =
     (if i < length quantizedColors then Some (quantizedColors ! i) else None)"

text \<open>\<open>`M${startX},${svgY}h${x - startX}v${rowStep}h${startX - x}z `\<close>\<close>

definition fragment :: "int \<Rightarrow> nat \<Rightarrow> int \<Rightarrow> nat \<Rightarrow> string" where
  "fragment startX svgY x rStep =
     ''M'' @ toString startX @ '','' @ toString (int svgY) @ ''h'' @ toString (x - startX)
       @ ''v'' @ toString (int rStep) @ ''h'' @ toString (startX - x) @ ''z ''"

text \<open>The body of the loop over \<open>x\<close>, on the pair \<open>(startX, pathData)\<close>.\<close>

definition scan_step ::
  "u32 list \<Rightarrow> nat \<Rightarrow> u32 \<Rightarrow> nat \<Rightarrow> nat \<Rightarrow> nat \<Rightarrow> int \<times> string \<Rightarrow> int \<times> string" where
  "scan_step quantizedColors dataRowOffset color svgY rStep x st =
     (case st of (startX, pathData) \<Rightarrow>
        if pixelAt quantizedColors (dataRowOffset + x) = Some color
        then (if startX = - 1 then (int x, pathData) else (startX, pathData))
        else if startX \<noteq> - 1
             then (- 1, pathData @ fragment startX svgY (int x) rStep)
             else (startX, pathData))"

text \<open>The body of the loop over \<open>svgY\<close>.\<close>

definition scan_row ::
  "u32 list \<Rightarrow> nat \<Rightarrow> nat \<Rightarrow> u32 \<Rightarrow> nat \<Rightarrow> nat \<Rightarrow> string \<Rightarrow> string" where
  "scan_row quantizedColors width height color rStep svgY pathData =
     (let dataRowIndex = height - 1 - svgY;
          dataRowOffset = dataRowIndex * width
      in case fold (scan_step quantizedColors dataRowOffset color svgY rStep) [0..<width]
                (- 1, pathData) of
           (startX, pathData') \<Rightarrow>
             if startX \<noteq> - 1
             then pathData' @ fragment startX svgY (int width) rStep
             else pathData')"

text \<open>
  \<open>for (let svgY = 0; svgY < height; svgY += rowStep)\<close>, entered at \<open>svgY\<close> with the
  \<open>pathData\<close> built so far. The stride is \<open>rowStep simplification\<close>, which is at least 1.
\<close>

function scan_rows ::
  "u32 list \<Rightarrow> nat \<Rightarrow> nat \<Rightarrow> u32 \<Rightarrow> int \<Rightarrow> nat \<Rightarrow> string \<Rightarrow> string" where
  "scan_rows quantizedColors width height color simplification svgY pathData =
     (if svgY < height
      then scan_rows quantizedColors width height color simplification
             (svgY + rowStep simplification)
             (scan_row quantizedColors width height color (rowStep simplification) svgY pathData)
      else pathData)"
  by pat_completeness auto
termination
  by (relation "measure (\<lambda>(qc, width, height, color, s, svgY, pathData). height - svgY)")
     (auto simp: rowStep_def)

text \<open>The callback of \<open>uniqueColors.forEach\<close>, on \<open>svgPaths\<close>.\<close>

definition path_element :: "u32 \<Rightarrow> string \<Rightarrow> string" where
  \<open>path_element color pathData =
     (let r = drop_bit 16 color AND 255;
          g = drop_bit 8 color AND 255;
          b = color AND 255
      in ''<path d="'' @ pathData @ ''" fill="rgb('' @ toString (uint r) @ '','' @ toString (uint g)
           @ '','' @ toString (uint b) @ '')" />'')\<close>

definition trace_color ::
  "u32 list \<Rightarrow> nat \<Rightarrow> nat \<Rightarrow> int \<Rightarrow> u32 \<Rightarrow> string \<Rightarrow> string" where
  "trace_color quantizedColors width height simplification color svgPaths =
     (let pathData = scan_rows quantizedColors width height color simplification 0 ''''
      in if pathData \<noteq> '''' then svgPaths @ path_element color pathData else svgPaths)"

definition document :: "nat \<Rightarrow> nat \<Rightarrow> string \<Rightarrow> string" where
  \<open>document width height svgPaths =
     ''<svg viewBox="0 0 '' @ toString (int width) @ '' '' @ toString (int height)
       @ ''" xmlns="http://www.w3.org/2000/svg" shape-rendering="crispEdges">''
       @ svgPaths @ ''</svg>''\<close>

text \<open>The part of \<open>img.onload\<close> after \<open>processOnGPU\<close> has returned.\<close>

definition vectorize :: "u8 list \<Rightarrow> nat \<Rightarrow> nat \<Rightarrow> int \<Rightarrow> string" where
  "vectorize packedData width height simplification =
     (case repack packedData width height of
        (quantizedColors, uniqueColors) \<Rightarrow>
          document width height
            (fold (trace_color quantizedColors width height simplification) uniqueColors ''''))"

text \<open>
  \<open>traceImageOffline\<close>: the file either decodes to an image (\<open>onload\<close>) or does not
  (\<open>onerror\<close>); an exception of \<open>processOnGPU\<close> rejects the promise. The object URL is
  only handed to \<open>img.src\<close> and revoked.
\<close>

definition traceImageOffline :: "env \<Rightarrow> image option \<Rightarrow> int \<Rightarrow> error + string" where
  "traceImageOffline e file simplification =
     (case file of
        None \<Rightarrow> Inl ImageLoadError
      | Some img \<Rightarrow>
          (case processOnGPU e img simplification of
             Inl err \<Rightarrow> Inl err
           | Inr (packedData, width, height) \<Rightarrow>
               Inr (vectorize packedData width height simplification)))"

subsection \<open>The loops with every array access checked\<close>

text \<open>
  \<open>a[i]\<close> and \<open>a[i] = v\<close> on a typed array, where an index outside \<open>0 .. length - 1\<close> is
  an error (\<open>None\<close>) instead of \<open>undefined\<close> or a write that is dropped. Indices are
  \<open>int\<close>, so that \<open>height - 1 - svgY\<close> can go below 0.
\<close>

definition element :: "'a list \<Rightarrow> int \<Rightarrow> 'a option" where
  "element a i = (if 0 \<le> i \<and> i < int (length a) then Some (a ! nat i) else None)"

definition store :: "'a list \<Rightarrow> int \<Rightarrow> 'a \<Rightarrow> 'a list option" where
  "store a i v = (if 0 \<le> i \<and> i < int (length a) then Some (a[nat i := v]) else None)"

text \<open>A loop whose body may fail: the first failure ends it.\<close>

fun fold_checked :: "('a \<Rightarrow> 's \<Rightarrow> 's option) \<Rightarrow> 'a list \<Rightarrow> 's \<Rightarrow> 's option" where
  "fold_checked f [] s = Some s"
| "fold_checked f (x # xs) s =
     (case f x s of None \<Rightarrow> None | Some s' \<Rightarrow> fold_checked f xs s')"

text \<open>
  The code of \<open>traceImageOffline\<close> between \<open>processOnGPU\<close> and \<open>resolve\<close> once more, line
  by line as in \<open>repack\<close>, \<open>scan_rows\<close> and \<open>vectorize\<close>, with \<open>element\<close> for each read of
  \<open>packedData\<close> and \<open>quantizedColors\<close> and \<open>store\<close> for the write to \<open>quantizedColors\<close>.
\<close>

definition packedColorAt_checked :: "u8 list \<Rightarrow> int \<Rightarrow> u32 option" where
  "packedColorAt_checked packedData srcIdx =
     (case element packedData srcIdx of None \<Rightarrow> None | Some r \<Rightarrow>
      case element packedData (srcIdx + 1) of None \<Rightarrow> None | Some g \<Rightarrow>
      case element packedData (srcIdx + 2) of None \<Rightarrow> None | Some b \<Rightarrow>
        Some (push_bit 16 (ucast r) OR push_bit 8 (ucast g) OR ucast b))"

definition repack_pixel_checked ::
  "u8 list \<Rightarrow> nat \<Rightarrow> nat \<Rightarrow> nat \<Rightarrow> u32 list \<times> u32 list \<Rightarrow> (u32 list \<times> u32 list) option" where
  "repack_pixel_checked packedData width y x st =
     (case st of (quantizedColors, uniqueColors) \<Rightarrow>
        let rowOffset = int y * int width;
            srcIdx = (int y * int width + int x) * 4
        in case packedColorAt_checked packedData srcIdx of None \<Rightarrow> None | Some packedColor \<Rightarrow>
           case store quantizedColors (rowOffset + int x) packedColor of None \<Rightarrow> None
           | Some quantizedColors' \<Rightarrow>
               Some (quantizedColors',
                     if packedColor \<noteq> 0 then set_add uniqueColors packedColor
                     else uniqueColors))"

definition repack_checked :: "u8 list \<Rightarrow> nat \<Rightarrow> nat \<Rightarrow> (u32 list \<times> u32 list) option" where
  "repack_checked packedData width height =
     fold_checked (\<lambda>y. fold_checked (repack_pixel_checked packedData width y) [0..<width])
       [0..<height] (replicate (width * height) 0, [])"

definition scan_step_checked ::
  "u32 list \<Rightarrow> int \<Rightarrow> u32 \<Rightarrow> nat \<Rightarrow> nat \<Rightarrow> nat \<Rightarrow> int \<times> string \<Rightarrow> (int \<times> string) option" where
  "scan_step_checked quantizedColors dataRowOffset color svgY rStep x st =
     (case st of (startX, pathData) \<Rightarrow>
        case element quantizedColors (dataRowOffset + int x) of None \<Rightarrow> None | Some v \<Rightarrow>
          Some (if v = color
                then (if startX = - 1 then (int x, pathData) else (startX, pathData))
                else if startX \<noteq> - 1
                     then (- 1, pathData @ fragment startX svgY (int x) rStep)
                     else (startX, pathData)))"

definition scan_row_checked ::
  "u32 list \<Rightarrow> nat \<Rightarrow> nat \<Rightarrow> u32 \<Rightarrow> nat \<Rightarrow> nat \<Rightarrow> string \<Rightarrow> string option" where
  "scan_row_checked quantizedColors width height color rStep svgY pathData =
     (let dataRowIndex = int height - 1 - int svgY;
          dataRowOffset = dataRowIndex * int width
      in case fold_checked (scan_step_checked quantizedColors dataRowOffset color svgY rStep)
                [0..<width] (- 1, pathData) of
           None \<Rightarrow> None
         | Some (startX, pathData') \<Rightarrow>
             Some (if startX \<noteq> - 1
                   then pathData' @ fragment startX svgY (int width) rStep
                   else pathData'))"

function scan_rows_checked ::
  "u32 list \<Rightarrow> nat \<Rightarrow> nat \<Rightarrow> u32 \<Rightarrow> int \<Rightarrow> nat \<Rightarrow> string \<Rightarrow> string option" where
  "scan_rows_checked quantizedColors width height color simplification svgY pathData =
     (if svgY < height
      then (case scan_row_checked quantizedColors width height color (rowStep simplification)
                   svgY pathData of
              None \<Rightarrow> None
            | Some pathData' \<Rightarrow>
                scan_rows_checked quantizedColors width height color simplification
                  (svgY + rowStep simplification) pathData')
      else Some pathData)"
  by pat_completeness auto
termination
  by (relation "measure (\<lambda>(qc, width, height, color, s, svgY, pathData). height - svgY)")
     (auto simp: rowStep_def)

definition trace_color_checked ::
  "u32 list \<Rightarrow> nat \<Rightarrow> nat \<Rightarrow> int \<Rightarrow> u32 \<Rightarrow> string \<Rightarrow> string option" where
  "trace_color_checked quantizedColors width height simplification color svgPaths =
     (case scan_rows_checked quantizedColors width height color simplification 0 '''' of
        None \<Rightarrow> None
      | Some pathData \<Rightarrow>
          Some (if pathData \<noteq> '''' then svgPaths @ path_element color pathData else svgPaths))"

definition vectorize_checked :: "u8 list \<Rightarrow> nat \<Rightarrow> nat \<Rightarrow> int \<Rightarrow> string option" where
  "vectorize_checked packedData width height simplification =
     (case repack_checked packedData width height of
        None \<Rightarrow> None
      | Some (quantizedColors, uniqueColors) \<Rightarrow>
          (case fold_checked (trace_color_checked quantizedColors width height simplification)
                  uniqueColors '''' of
             None \<Rightarrow> None
           | Some svgPaths \<Rightarrow> Some (document width height svgPaths)))"

declare scan_rows_checked.simps [simp del]

subsection \<open>The vectorizer as the specification describes it\<close>

text \<open>
  Section 4.2 of the specification, for one colour \<open>c\<close> and one row of pixels: scan the
  columns from the left, with either no active run or the start of the active one; a
  pixel equal to \<open>c\<close> starts a run when none is active; a pixel different from \<open>c\<close> closes
  the active run as \<open>[startX, x)\<close>; a run still open at the end of the row closes there.
\<close>

fun runs :: "'a \<Rightarrow> 'a list \<Rightarrow> nat \<Rightarrow> nat option \<Rightarrow> (nat \<times> nat) list" where
  "runs c [] x None = []"
| "runs c [] x (Some startX) = [(startX, x)]"
| "runs c (p # ps) x None =
     (if p = c then runs c ps (Suc x) (Some x) else runs c ps (Suc x) None)"
| "runs c (p # ps) x (Some startX) =
     (if p = c then runs c ps (Suc x) (Some startX)
      else (startX, x) # runs c ps (Suc x) None)"

text \<open>Row \<open>r\<close> of a buffer that holds its rows one after the other.\<close>

definition buffer_row :: "'a list \<Rightarrow> nat \<Rightarrow> nat \<Rightarrow> 'a list" where
  "buffer_row buffer width r = take width (drop (r * width) buffer)"

text \<open>
  The closed outline of the rectangle with upper left corner \<open>(x, y)\<close>, width \<open>w\<close> and
  height \<open>h\<close>.
\<close>

definition rectangle_path :: "nat \<times> nat \<times> nat \<times> nat \<Rightarrow> string" where
  "rectangle_path rect =
     (case rect of (x, y, w, h) \<Rightarrow>
        ''M'' @ toString (int x) @ '','' @ toString (int y) @ ''h'' @ toString (int w)
          @ ''v'' @ toString (int h) @ ''h'' @ toString (- int w) @ ''z '')"

text \<open>The rectangles \<open>(startX, svgY)\<close> of size \<open>(x - startX, rowStep)\<close> of one row.\<close>

definition row_rectangles :: "'a \<Rightarrow> 'a list \<Rightarrow> nat \<Rightarrow> nat \<Rightarrow> (nat \<times> nat \<times> nat \<times> nat) list" where
  "row_rectangles c row svgY rStep =
     map (\<lambda>(startX, x). (startX, svgY, x - startX, rStep)) (runs c row 0 None)"

text \<open>\<open>svgY\<close> from 0 to \<open>height\<close>, stepping by \<open>rowStep\<close>.\<close>

definition sampled_rows :: "nat \<Rightarrow> nat \<Rightarrow> nat list" where
  "sampled_rows height rStep = filter (\<lambda>svgY. rStep dvd svgY) [0..<height]"

subsection \<open>Derived notions used by the statements\<close>

text \<open>
  An 8-bit channel value read as a texel component (divided by 255), quantized by the
  shader and stored back in the 8-bit frame buffer.
\<close>

definition quantize_byte :: "int \<Rightarrow> u8 \<Rightarrow> u8" where
  "quantize_byte u_qFactor b = to_unorm8 (quantize1 u_qFactor (of_nat (unat b) / 255))"

text \<open>A 1x1 image whose only sample is opaque white.\<close>

definition white1 :: image where
  "white1 = \<lparr>naturalWidth = 1, naturalHeight = 1, samples = [(255, 255, 255, 255)]\<rparr>"

text \<open>The values that \<open>svgY\<close> takes in the loop of \<open>scan_rows\<close>, in order.\<close>

function visited_rows :: "nat \<Rightarrow> int \<Rightarrow> nat \<Rightarrow> nat list" where
  "visited_rows height simplification svgY =
     (if svgY < height
      then svgY # visited_rows height simplification (svgY + rowStep simplification)
      else [])"
  by pat_completeness auto
termination
  by (relation "measure (\<lambda>(height, s, svgY). height - svgY)") (auto simp: rowStep_def)

text \<open>The colour that the repacking loop computes for pixel number \<open>k\<close> of the buffer.\<close>

definition colorAt :: "u8 list \<Rightarrow> nat \<Rightarrow> u32" where
  "colorAt packedData k = packedColorAt packedData (k * 4)"

text \<open>\<open>uniqueColors\<close> after the colours \<open>cs\<close> have been met in this order.\<close>

definition collect :: "u32 list \<Rightarrow> u32 list \<Rightarrow> u32 list" where
  "collect uniqueColors cs = fold (\<lambda>c u. if c \<noteq> 0 then set_add u c else u) cs uniqueColors"

text \<open>The sentinel encoding of the run that is open.\<close>

definition startX_of :: "nat option \<Rightarrow> int" where
  "startX_of st = (case st of None \<Rightarrow> - 1 | Some startX \<Rightarrow> int startX)"

text \<open>The colours for which the callback of \<open>forEach\<close> appends a path element.\<close>

definition shape_colors :: "u32 list \<Rightarrow> u32 list \<Rightarrow> nat \<Rightarrow> nat \<Rightarrow> int \<Rightarrow> u32 list" where
  "shape_colors quantizedColors uniqueColors width height simplification =
     filter (\<lambda>color. scan_rows quantizedColors width height color simplification 0 '''' \<noteq> '''')
       uniqueColors"

text \<open>The colours of the path elements of the document, in document order.\<close>

definition traced_colors :: "u8 list \<Rightarrow> nat \<Rightarrow> nat \<Rightarrow> int \<Rightarrow> u32 list" where
  "traced_colors packedData width height simplification =
     shape_colors (fst (repack packedData width height)) (snd (repack packedData width height))
       width height simplification"

text \<open>The texel at integer coordinates clamped to the image.\<close>

definition texel_at :: "image \<Rightarrow> int \<Rightarrow> int \<Rightarrow> vec3" where
  "texel_at img kx ky =
     texel img (clamp_index (naturalWidth img) kx) (clamp_index (naturalHeight img) ky)"

text \<open>A browser that provides WebGL 2 and compiles the shaders.\<close>

definition browser :: env where
  "browser = \<lparr>objectURL = ''blob:1'', webgl2 = True, shaders = True\<rparr>"

text \<open>
  A 1x6 image: the top pixel white, the five pixels below it black. A 4x4 image: the top
  row blue \<open>(0, 0, 255)\<close>, the three rows below it red \<open>(255, 0, 0)\<close>.
\<close>

definition topWhite6 :: image where
  "topWhite6 = \<lparr>naturalWidth = 1, naturalHeight = 6,
     samples = (255, 255, 255, 255) # replicate 5 (0, 0, 0, 255)\<rparr>"


text \<open>A 2x2 image of opaque black.\<close>

definition black2 :: image where
  "black2 = \<lparr>naturalWidth = 2, naturalHeight = 2,
     samples = [(0, 0, 0, 255), (0, 0, 0, 255), (0, 0, 0, 255), (0, 0, 0, 255)]\<rparr>"

text \<open>
  The packed colour that the fragment of frame-buffer pixel \<open>(fx, fy)\<close> leaves in the
  read-back: the first three bytes of \<open>fragColor\<close>.
\<close>

definition fragment_color :: "image \<Rightarrow> int \<Rightarrow> nat \<Rightarrow> nat \<Rightarrow> u32" where
  "fragment_color img u_qFactor fx fy = packedColorAt (fragColor img u_qFactor fx fy) 0"

declare scan_rows.simps [simp del] visited_rows.simps [simp del]

section \<open>Properties\<close>

subsection \<open>Texture sampling at pixel centres\<close>

lemma clamp_index_less: "0 < n \<Longrightarrow> clamp_index n i < n"
  by (auto simp: clamp_index_def)

lemma mix_zero: "mix a b 0 = a"
  by (cases a; cases b) (simp add: mix_def vadd_def vscale_def)

lemma taps_centre:
  assumes "0 < n"
  shows "taps n ((of_int k + 1 / 2) / of_nat n) = (clamp_index n k, clamp_index n (k + 1), 0)"
proof -
  have "(of_int k + 1 / 2) / of_nat n * of_nat n - 1 / 2 = (of_int k :: rat)"
    using assms by simp
  then show ?thesis
    by (simp add: taps_def Let_def)
qed

lemma texture_centre:
  assumes "0 < naturalWidth img" "0 < naturalHeight img"
  shows "texture img ((of_int kx + 1 / 2) / of_nat (naturalWidth img),
                      (of_int ky + 1 / 2) / of_nat (naturalHeight img))
         = texel img (clamp_index (naturalWidth img) kx) (clamp_index (naturalHeight img) ky)"
  by (simp add: texture_def taps_centre [OF assms(1)] taps_centre [OF assms(2)] mix_zero)

lemma tap_coord:
  "fst (v_texCoord width height fx fy) + of_int i * fst (1 / of_nat width, 1 / of_nat height)
     = (of_int (int fx + i) + 1 / 2) / of_nat width"
  "snd (v_texCoord width height fx fy) + of_int j * snd (1 / of_nat width, 1 / of_nat height)
     = (of_int (int fy + j) + 1 / 2) / of_nat height"
  by (simp_all add: v_texCoord_def add_divide_distrib)

text \<open>
  Every tap of the blur falls on a pixel centre, so linear filtering returns one texel:
  the one at the clamped offset position.
\<close>

lemma blur_tap_centre:
  assumes "0 < naturalWidth img" "0 < naturalHeight img"
  shows "blur_tap img (v_texCoord (naturalWidth img) (naturalHeight img) fx fy)
           (1 / of_nat (naturalWidth img), 1 / of_nat (naturalHeight img)) j i blurred
         = vadd blurred
             (vscale (texel img (clamp_index (naturalWidth img) (int fx + i))
                                (clamp_index (naturalHeight img) (int fy + j)))
                     (w_kernel ! nat ((j + 2) * 5 + (i + 2))))"
  unfolding blur_tap_def Let_def tap_coord
  by (simp only: texture_centre [OF assms])

lemma blur_constant:
  assumes wh: "0 < naturalWidth img" "0 < naturalHeight img"
    and c: "\<And>i j. i \<in> {-2, -1, 0, 1, 2} \<Longrightarrow> j \<in> {-2, -1, 0, 1, 2} \<Longrightarrow>
              texel img (clamp_index (naturalWidth img) (int fx + i))
                        (clamp_index (naturalHeight img) (int fy + j)) = c"
  shows "blur img (v_texCoord (naturalWidth img) (naturalHeight img) fx fy)
           (1 / of_nat (naturalWidth img), 1 / of_nat (naturalHeight img))
         = vscale c (987 / 1000)"
proof -
  have tap: "blur_tap img (v_texCoord (naturalWidth img) (naturalHeight img) fx fy)
           (1 / of_nat (naturalWidth img), 1 / of_nat (naturalHeight img)) j i blurred
         = vadd blurred (vscale c (w_kernel ! nat ((j + 2) * 5 + (i + 2))))"
    if "i \<in> {-2, -1, 0, 1, 2}" "j \<in> {-2, -1, 0, 1, 2}" for i j blurred
    by (simp only: blur_tap_centre [OF wh] c [OF that])
  obtain r g b where [simp]: "c = (r, g, b)" by (cases c)
  show ?thesis
    unfolding blur_def
    by (simp add: tap) (simp add: vadd_def vscale_def w_kernel_def)
qed

lemma blur_white1:
  "blur white1 (v_texCoord 1 1 0 0) (1, 1) = (987 / 1000, 987 / 1000, 987 / 1000)"
proof -
  have "blur white1 (v_texCoord (naturalWidth white1) (naturalHeight white1) 0 0)
          (1 / of_nat (naturalWidth white1), 1 / of_nat (naturalHeight white1))
        = vscale (1, 1, 1) (987 / 1000)"
    by (rule blur_constant) (simp_all add: white1_def texel_def clamp_index_def)
  then show ?thesis
    by (simp add: white1_def vscale_def)
qed

lemma blur_centre:
  assumes "0 < naturalWidth img" "0 < naturalHeight img"
  shows "blur img (v_texCoord (naturalWidth img) (naturalHeight img) fx fy)
           (1 / of_nat (naturalWidth img), 1 / of_nat (naturalHeight img))
         = fold (\<lambda>j. fold (\<lambda>i blurred. vadd blurred
                    (vscale (texel_at img (int fx + i) (int fy + j))
                            (w_kernel ! nat ((j + 2) * 5 + (i + 2)))))
                  [-2, -1, 0, 1, 2]) [-2, -1, 0, 1, 2] (0, 0, 0)"
  unfolding blur_def texel_at_def blur_tap_centre [OF assms] ..

lemma texture_offset:
  assumes "0 < naturalWidth img" "0 < naturalHeight img"
  shows "texture img
           (fst (v_texCoord (naturalWidth img) (naturalHeight img) fx fy)
              + of_int i * (1 / of_nat (naturalWidth img)),
            snd (v_texCoord (naturalWidth img) (naturalHeight img) fx fy)
              + of_int j * (1 / of_nat (naturalHeight img)))
         = texel_at img (int fx + i) (int fy + j)"
  using tap_coord(1) [of "naturalWidth img" "naturalHeight img" fx fy i]
    tap_coord(2) [of "naturalWidth img" "naturalHeight img" fx fy j]
  unfolding fst_conv snd_conv texel_at_def
  by (simp only: texture_centre [OF assms])

lemma fragment_main_centre:
  assumes "0 < naturalWidth img" "0 < naturalHeight img"
  shows "fragment_main img (of_nat (naturalWidth img), of_nat (naturalHeight img)) q
           (v_texCoord (naturalWidth img) (naturalHeight img) fx fy)
         = (quantize q (blur img (v_texCoord (naturalWidth img) (naturalHeight img) fx fy)
                          (1 / of_nat (naturalWidth img), 1 / of_nat (naturalHeight img))),
            if \<bar>luminance (quantize q (texel_at img (int fx - 1) (int fy)))
                 - luminance (quantize q (texel_at img (int fx + 1) (int fy)))\<bar>
               + \<bar>luminance (quantize q (texel_at img (int fx) (int fy - 1)))
                 - luminance (quantize q (texel_at img (int fx) (int fy + 1)))\<bar> > 1 / 100
            then 1 else 0)"
proof -
  let ?v = "v_texCoord (naturalWidth img) (naturalHeight img) fx fy"
  let ?pw = "1 / rat_of_nat (naturalWidth img)"
  let ?ph = "1 / rat_of_nat (naturalHeight img)"
  have "texture img (fst ?v - ?pw, snd ?v)
          = texture img (fst ?v + of_int (- 1) * ?pw, snd ?v + of_int 0 * ?ph)"
    by simp
  then have l: "texture img (fst ?v - ?pw, snd ?v) = texel_at img (int fx - 1) (int fy)"
    by (simp only: texture_offset [OF assms]) simp
  have "texture img (fst ?v + ?pw, snd ?v)
          = texture img (fst ?v + of_int 1 * ?pw, snd ?v + of_int 0 * ?ph)"
    by simp
  then have r: "texture img (fst ?v + ?pw, snd ?v) = texel_at img (int fx + 1) (int fy)"
    by (simp only: texture_offset [OF assms]) simp
  have "texture img (fst ?v, snd ?v - ?ph)
          = texture img (fst ?v + of_int 0 * ?pw, snd ?v + of_int (- 1) * ?ph)"
    by simp
  then have u: "texture img (fst ?v, snd ?v - ?ph) = texel_at img (int fx) (int fy - 1)"
    by (simp only: texture_offset [OF assms]) simp
  have "texture img (fst ?v, snd ?v + ?ph)
          = texture img (fst ?v + of_int 0 * ?pw, snd ?v + of_int 1 * ?ph)"
    by simp
  then have d: "texture img (fst ?v, snd ?v + ?ph) = texel_at img (int fx) (int fy + 1)"
    by (simp only: texture_offset [OF assms]) simp
  show ?thesis
    unfolding fragment_main_def Let_def fst_conv snd_conv l r u d ..
qed

lemma floor_rat_numeral:
  "\<lfloor>numeral a / numeral b :: rat\<rfloor> = numeral a div numeral b"
  by (metis floor_divide_of_int_eq of_int_numeral)

lemma floor_rat_one_numeral:
  "\<lfloor>1 / numeral b :: rat\<rfloor> = 1 div numeral b"
  by (metis floor_divide_of_int_eq of_int_numeral of_int_1)

lemma to_unorm8_flag: "to_unorm8 1 = 255" "to_unorm8 0 = 0"
  by (simp_all add: to_unorm8_def)

lemma fragColor_centre:
  assumes "0 < naturalWidth img" "0 < naturalHeight img"
  shows "fragColor img q fx fy =
     (case quantize q (fold (\<lambda>j. fold (\<lambda>i blurred. vadd blurred
                    (vscale (texel_at img (int fx + i) (int fy + j))
                            (w_kernel ! nat ((j + 2) * 5 + (i + 2)))))
                  [-2, -1, 0, 1, 2]) [-2, -1, 0, 1, 2] (0, 0, 0)) of
        (r, g, b) \<Rightarrow>
          [to_unorm8 r, to_unorm8 g, to_unorm8 b,
           if \<bar>luminance (quantize q (texel_at img (int fx - 1) (int fy)))
                 - luminance (quantize q (texel_at img (int fx + 1) (int fy)))\<bar>
               + \<bar>luminance (quantize q (texel_at img (int fx) (int fy - 1)))
                 - luminance (quantize q (texel_at img (int fx) (int fy + 1)))\<bar> > 1 / 100
           then 255 else 0])"
  unfolding fragColor_def Let_def fragment_main_centre [OF assms] blur_centre [OF assms]
  by (simp add: to_unorm8_flag split: prod.split)

subsection \<open>Quantization\<close>

lemma quantize1_round:
  "quantize1 q c = of_int (round (c * 255 / of_int q) * q) / 255"
  by (simp add: quantize1_def round_def)

lemma to_unorm8_of_int:
  "to_unorm8 (of_int k / 255) = word_of_int (max 0 (min 255 k))"
proof -
  have "max 0 (min 1 (of_int k / 255 :: rat)) * 255 = of_int (max 0 (min 255 k))"
    by (auto simp: max_def min_def)
  then show ?thesis
    by (simp add: to_unorm8_def del: of_int_max of_int_min)
qed

lemma uint_byte_clamp:
  "uint (word_of_int (max 0 (min 255 k)) :: u8) = max 0 (min 255 k)"
  by (simp add: uint_word_of_int take_bit_int_eq_self)

lemma stored_quantized:
  "uint (to_unorm8 (quantize1 q c)) = max 0 (min 255 (round (c * 255 / of_int q) * q))"
  by (simp only: quantize1_round to_unorm8_of_int uint_byte_clamp)

lemma quantize1_idem:
  assumes "q \<noteq> 0"
  shows "quantize1 q (quantize1 q c) = quantize1 q c"
proof -
  define m where "m = \<lfloor>c * 255 / of_int q + 1 / 2\<rfloor>"
  have "quantize1 q c * 255 / of_int q = of_int m"
    using assms by (simp add: quantize1_def m_def)
  moreover have "\<lfloor>of_int m + 1 / 2 :: rat\<rfloor> = m"
    by (rule floor_unique) simp_all
  ultimately have "\<lfloor>quantize1 q c * 255 / of_int q + 1 / 2\<rfloor> = m"
    by simp
  then show ?thesis
    by (simp add: quantize1_def [of q "quantize1 q c"]) (simp add: quantize1_def m_def)
qed

lemma round_ratio:
  assumes "0 < q"
  shows "round (of_int k / of_int q :: rat) = (2 * k + q) div (2 * q)"
proof -
  have "of_int k / of_int q + 1 / 2 = (of_int (2 * k + q) / of_int (2 * q) :: rat)"
    using assms by (simp add: field_simps)
  then show ?thesis
    by (simp only: round_def floor_divide_of_int_eq)
qed

lemma quantize_byte_int:
  assumes "0 < q"
  shows "uint (quantize_byte q b) = max 0 (min 255 ((2 * uint b + q) div (2 * q) * q))"
proof -
  have "rat_of_nat (unat b) / 255 * 255 / of_int q = of_int (uint b) / of_int q"
    by simp
  then show ?thesis
    by (simp only: quantize_byte_def stored_quantized round_ratio [OF assms])
qed

text \<open>The integer content of re-quantizing a stored byte.\<close>

lemma int_requant_idem:
  fixes k q :: int
  assumes q: "0 < q" and k: "0 \<le> k" "k \<le> 255"
  defines "f \<equiv> \<lambda>k. max 0 (min 255 ((2 * k + q) div (2 * q) * q))"
  shows "f (f k) = f k"
proof -
  define m where "m = (2 * k + q) div (2 * q)"
  have m0: "0 \<le> m" using q k by (simp add: m_def pos_imp_zdiv_nonneg_iff)
  have mq0: "0 \<le> m * q" using m0 q by simp
  show ?thesis
  proof (cases "m * q \<le> 255")
    case True
    then have fk: "f k = m * q" using mq0 by (simp add: f_def m_def)
    have "(2 * (m * q) + q) div (2 * q) = (q * (2 * m + 1)) div (q * 2)"
      by (simp add: algebra_simps)
    also have "\<dots> = (2 * m + 1) div 2"
      using q by simp
    also have "\<dots> = m" by simp
    finally show ?thesis
      using True mq0 by (simp add: fk) (simp add: f_def)
  next
    case False
    then have fk: "f k = 255" by (simp add: f_def m_def)
    have "m \<le> (2 * 255 + q) div (2 * q)"
      unfolding m_def using k q by (intro zdiv_mono1) auto
    then have "m * q \<le> (2 * 255 + q) div (2 * q) * q"
      using q by (simp add: mult_right_mono)
    with False have "255 < (2 * 255 + q) div (2 * q) * q" by linarith
    then show ?thesis by (simp add: fk) (simp add: f_def)
  qed
qed

lemma quantize_byte_idem:
  assumes "0 < q"
  shows "quantize_byte q (quantize_byte q b) = quantize_byte q b"
proof -
  have b: "0 \<le> uint b" "uint b \<le> 255"
    using uint_bounded [of b] by simp_all
  have "uint (quantize_byte q (quantize_byte q b)) = uint (quantize_byte q b)"
    unfolding quantize_byte_int [OF assms, of "quantize_byte q b"]
    unfolding quantize_byte_int [OF assms, of b]
    by (rule int_requant_idem [OF assms b])
  then show ?thesis by (simp only: word_uint_eq_iff)
qed

subsection \<open>The repacking loop\<close>

lemma collect_snoc:
  "collect u (cs @ [c]) = (if c \<noteq> 0 then set_add (collect u cs) c else collect u cs)"
  by (simp add: collect_def)

lemma set_collect: "set (collect u cs) = set u \<union> {c \<in> set cs. c \<noteq> 0}"
  by (induction cs arbitrary: u) (auto simp: collect_def set_add_def)

lemma distinct_collect: "distinct u \<Longrightarrow> distinct (collect u cs)"
  by (induction cs arbitrary: u) (auto simp: collect_def set_add_def)

lemma update_filled:
  assumes "k < n"
  shows "(map f [0..<k] @ replicate (n - k) z)[k := f k] = map f [0..<Suc k] @ replicate (n - Suc k) z"
proof -
  from assms obtain m where m: "n - k = Suc m" "n - Suc k = m"
    by (cases "n - k") auto
  show ?thesis
    by (simp add: m list_update_append)
qed

lemma pixel_index_less:
  assumes "y < height" "x < width"
  shows "y * width + x < width * (height :: nat)"
proof -
  have "y * width + x < Suc y * width" using assms by simp
  also have "\<dots> \<le> height * width" using assms by (intro mult_le_mono1) simp
  finally show ?thesis by (simp add: mult.commute)
qed

lemma repack_pixel_filled:
  assumes "y < height" "x < width"
  shows "repack_pixel p width y x
           (map (colorAt p) [0..<y * width + x] @ replicate (width * height - (y * width + x)) 0,
            collect u (map (colorAt p) [y * width..<y * width + x]))
         = (map (colorAt p) [0..<y * width + Suc x]
              @ replicate (width * height - (y * width + Suc x)) 0,
            collect u (map (colorAt p) [y * width..<y * width + Suc x]))"
proof -
  have upd: "(map (colorAt p) [0..<y * width + x] @ replicate (width * height - (y * width + x)) 0)
          [y * width + x := colorAt p (y * width + x)]
        = map (colorAt p) [0..<Suc (y * width + x)]
            @ replicate (width * height - Suc (y * width + x)) 0"
    by (rule update_filled) (rule pixel_index_less [OF assms])
  have c: "packedColorAt p ((y * width + x) * 4) = colorAt p (y * width + x)"
    by (simp only: colorAt_def)
  show ?thesis
    unfolding repack_pixel_def Let_def prod.case c upd
    by (simp add: collect_snoc)
qed

lemma repack_row:
  assumes "y < height" "n \<le> width"
  shows "fold (repack_pixel p width y) [0..<n]
           (map (colorAt p) [0..<y * width] @ replicate (width * height - y * width) 0, collect u [])
         = (map (colorAt p) [0..<y * width + n] @ replicate (width * height - (y * width + n)) 0,
            collect u (map (colorAt p) [y * width..<y * width + n]))"
  using assms(2)
proof (induction n)
  case 0
  then show ?case by simp
next
  case (Suc n)
  then have "n < width" by simp
  from repack_pixel_filled [OF assms(1) this, of p u] Suc show ?case
    by simp
qed

lemma collect_append: "collect u (xs @ ys) = collect (collect u xs) ys"
  by (simp add: collect_def)

lemma collect_Nil: "collect u [] = u"
  by (simp add: collect_def)

lemma repack_rows:
  assumes "m \<le> height"
  shows "fold (\<lambda>y. fold (repack_pixel p width y) [0..<width]) [0..<m]
           (replicate (width * height) 0, [])
         = (map (colorAt p) [0..<m * width] @ replicate (width * height - m * width) 0,
            collect [] (map (colorAt p) [0..<m * width]))"
  using assms
proof (induction m)
  case 0
  then show ?case by (simp add: collect_Nil)
next
  case (Suc m)
  let ?F = "\<lambda>y. fold (repack_pixel p width y) [0..<width]"
  let ?u = "collect [] (map (colorAt p) [0..<m * width])"
  from Suc have m: "m < height" by simp
  have split: "[0..<m * width + width] = [0..<m * width] @ [m * width..<m * width + width]"
    by (rule upt_add_eq_append) simp
  have "fold ?F [0..<Suc m] (replicate (width * height) 0, [])
          = ?F m (fold ?F [0..<m] (replicate (width * height) 0, []))"
    by simp
  also have "\<dots> = ?F m (map (colorAt p) [0..<m * width]
                           @ replicate (width * height - m * width) 0, collect ?u [])"
    using Suc by (simp add: collect_Nil)
  also have "\<dots> = (map (colorAt p) [0..<m * width + width]
                       @ replicate (width * height - (m * width + width)) 0,
                     collect ?u (map (colorAt p) [m * width..<m * width + width]))"
    by (rule repack_row [OF m]) simp
  also have "\<dots> = (map (colorAt p) [0..<Suc m * width]
                       @ replicate (width * height - Suc m * width) 0,
                     collect [] (map (colorAt p) [0..<Suc m * width]))"
    unfolding collect_append [symmetric] map_append [symmetric] split [symmetric]
    by (simp add: add.commute)
  finally show ?case .
qed

lemma repack_eq:
  "repack p width height
     = (map (colorAt p) [0..<width * height], collect [] (map (colorAt p) [0..<width * height]))"
  using repack_rows [of height height p width]
  by (simp add: repack_def mult.commute)

subsection \<open>The scanning loops\<close>

lemma rowStep_pos: "0 < rowStep s"
  by (simp add: rowStep_def)

lemma scan_rows_fold:
  "scan_rows qc width height c s svgY acc
     = fold (scan_row qc width height c (rowStep s)) (visited_rows height s svgY) acc"
proof (induction qc width height c s svgY acc rule: scan_rows.induct)
  case (1 qc width height c s svgY acc)
  show ?case
  proof (cases "svgY < height")
    case True
    with 1 show ?thesis
      by (subst scan_rows.simps, subst visited_rows.simps) simp
  next
    case False
    then show ?thesis
      by (subst scan_rows.simps, subst visited_rows.simps) simp
  qed
qed

lemma filter_dvd_gap:
  assumes "(rs :: nat) dvd y" "0 < rs"
  shows "filter (\<lambda>k. rs dvd k) [Suc y..<min (y + rs) h] = []"
proof -
  have "\<not> rs dvd k" if "y < k" "k < y + rs" for k
  proof
    assume "rs dvd k"
    with assms(1) have "rs dvd (k - y)" by (simp add: dvd_diff_nat)
    moreover from that have "0 < k - y" "k - y < rs" by simp_all
    ultimately show False by (auto dest: dvd_imp_le)
  qed
  then show ?thesis
    by (auto simp: filter_empty_conv)
qed

lemma visited_rows_filter:
  assumes "rowStep s dvd svgY"
  shows "visited_rows height s svgY = filter (\<lambda>k. rowStep s dvd k) [svgY..<height]"
  using assms
proof (induction height s svgY rule: visited_rows.induct)
  case (1 height s svgY)
  show ?case
  proof (cases "svgY < height")
    case True
    have next_dvd: "rowStep s dvd svgY + rowStep s"
      using 1(2) by simp
    have "[svgY..<height] = svgY # [Suc svgY..<min (svgY + rowStep s) height]
            @ [svgY + rowStep s..<height]"
    proof (cases "svgY + rowStep s \<le> height")
      case le: True
      have "[Suc svgY..<height] = [Suc svgY..<svgY + rowStep s] @ [svgY + rowStep s..<height]"
        using le rowStep_pos [of s]
        by (metis Suc_leI add.commute le_add2 less_add_same_cancel2 upt_add_eq_append
            le_Suc_ex)
      with True le show ?thesis
        by (simp add: upt_conv_Cons min_def)
    next
      case False
      with True show ?thesis
        by (simp add: upt_conv_Cons min_def)
    qed
    then have "filter (\<lambda>k. rowStep s dvd k) [svgY..<height]
                 = svgY # filter (\<lambda>k. rowStep s dvd k) [svgY + rowStep s..<height]"
      using 1(2) filter_dvd_gap [OF 1(2) rowStep_pos, of height] by simp
    with 1(1) [OF True next_dvd] True show ?thesis
      by (subst visited_rows.simps) simp
  next
    case False
    then show ?thesis
      by (subst visited_rows.simps) simp
  qed
qed

lemma visited_rows_sampled: "visited_rows height s 0 = sampled_rows height (rowStep s)"
  by (simp add: visited_rows_filter sampled_rows_def)

lemma startX_of_simps [simp]:
  "startX_of None = - 1" "startX_of (Some k) = int k" "startX_of (Some k) \<noteq> - 1"
  by (simp_all add: startX_of_def)

lemma scan_fold_runs:
  assumes "x1 = x0 + length ps"
    and "\<And>i. i < length ps \<Longrightarrow> pixelAt qc (off + (x0 + i)) = Some (ps ! i)"
  shows "(case fold (scan_step qc off c svgY rs) [x0..<x1] (startX_of st, acc) of
            (startX, acc') \<Rightarrow>
              if startX \<noteq> - 1 then acc' @ fragment startX svgY (int x1) rs else acc')
         = acc @ concat (map (\<lambda>(a, b). fragment (int a) svgY (int b) rs) (runs c ps x0 st))"
  using assms
proof (induction ps arbitrary: x0 st acc)
  case Nil
  then show ?case by (cases st) simp_all
next
  case (Cons p ps)
  let ?F = "scan_step qc off c svgY rs"
  have here: "pixelAt qc (off + x0) = Some p"
    using Cons.prems(2) [of 0] by simp
  have rest: "pixelAt qc (off + (Suc x0 + i)) = Some (ps ! i)" if "i < length ps" for i
    using Cons.prems(2) [of "Suc i"] that by simp
  have x1: "x1 = Suc x0 + length ps"
    using Cons.prems(1) by simp
  then have "x0 < x1"
    by simp
  then have unroll: "fold ?F [x0..<x1] s = fold ?F [Suc x0..<x1] (?F x0 s)" for s
    by (simp add: upt_conv_Cons)
  note IH = Cons.IH [of "Suc x0", OF x1 rest]
  show ?case
  proof (cases st)
    case None
    show ?thesis
    proof (cases "p = c")
      case True
      have step: "?F x0 (startX_of st, acc) = (startX_of (Some x0), acc)"
        using None True here by (simp add: scan_step_def)
      show ?thesis
        unfolding unroll step using IH [of "Some x0" acc] None True by simp
    next
      case False
      have step: "?F x0 (startX_of st, acc) = (startX_of None, acc)"
        using None False here by (simp add: scan_step_def)
      show ?thesis
        unfolding unroll step using IH [of None acc] None False by simp
    qed
  next
    case (Some k)
    show ?thesis
    proof (cases "p = c")
      case True
      have step: "?F x0 (startX_of st, acc) = (startX_of (Some k), acc)"
        using Some True here by (simp add: scan_step_def)
      show ?thesis
        unfolding unroll step using IH [of "Some k" acc] Some True by simp
    next
      case False
      have step: "?F x0 (startX_of st, acc)
              = (startX_of None, acc @ fragment (int k) svgY (int x0) rs)"
        using Some False here by (simp add: scan_step_def)
      show ?thesis
        unfolding unroll step
        using IH [of None "acc @ fragment (int k) svgY (int x0) rs"] Some False by simp
    qed
  qed
qed

lemma pixelAt_buffer_row:
  assumes "Suc r * width \<le> length qc" "i < width"
  shows "pixelAt qc (r * width + i) = Some (buffer_row qc width r ! i)"
proof -
  from assms have "r * width + i < length qc" by simp
  then show ?thesis
    using assms by (simp add: pixelAt_def buffer_row_def)
qed

lemma length_buffer_row:
  "Suc r * width \<le> length qc \<Longrightarrow> length (buffer_row qc width r) = width"
  by (simp add: buffer_row_def)

lemma scan_row_runs:
  assumes len: "length qc = width * height" and y: "svgY < height"
  shows "scan_row qc width height c rs svgY acc
         = acc @ concat (map (\<lambda>(a, b). fragment (int a) svgY (int b) rs)
                 (runs c (buffer_row qc width (height - 1 - svgY)) 0 None))"
proof -
  define r where "r = height - 1 - svgY"
  have "Suc r \<le> height" using y by (simp add: r_def)
  then have "Suc r * width \<le> height * width"
    by (rule mult_le_mono1)
  then have fit: "Suc r * width \<le> length qc"
    by (simp add: len mult.commute)
  have w: "length (buffer_row qc width r) = width"
    by (rule length_buffer_row [OF fit])
  have px: "pixelAt qc (r * width + (0 + i)) = Some (buffer_row qc width r ! i)"
    if "i < length (buffer_row qc width r)" for i
  proof -
    from that have "i < width"
      by (simp only: w)
    from pixelAt_buffer_row [OF fit this] show ?thesis
      by simp
  qed
  have "(case fold (scan_step qc (r * width) c svgY rs) [0..<width] (startX_of None, acc) of
            (startX, acc') \<Rightarrow>
              if startX \<noteq> - 1 then acc' @ fragment startX svgY (int width) rs else acc')
         = acc @ concat (map (\<lambda>(a, b). fragment (int a) svgY (int b) rs)
                  (runs c (buffer_row qc width r) 0 None))"
    by (rule scan_fold_runs [OF _ px]) (simp add: w)
  then show ?thesis
    unfolding scan_row_def Let_def r_def [symmetric] startX_of_simps .
qed

lemma runs_ordered:
  assumes "(a, b) \<in> set (runs c ps x st)" and "\<And>k. st = Some k \<Longrightarrow> k < x"
  shows "a < b"
  using assms
proof (induction c ps x st rule: runs.induct)
  case (1 c x)
  then show ?case by simp
next
  case (2 c x startX)
  then show ?case by simp
next
  case (3 c p ps x)
  then show ?case by (simp split: if_splits)
next
  case (4 c p ps x startX)
  from 4(4) have "startX < x" by simp
  with 4 show ?case by (auto split: if_splits)
qed

lemma fragment_rectangle:
  assumes "a \<le> b"
  shows "fragment (int a) svgY (int b) rs = rectangle_path (a, svgY, b - a, rs)"
  using assms by (simp add: fragment_def rectangle_path_def of_nat_diff)

lemma row_fragments:
  "concat (map (\<lambda>(a, b). fragment (int a) svgY (int b) rs) (runs c row 0 None))
     = concat (map rectangle_path (row_rectangles c row svgY rs))"
proof -
  have "(case r of (a, b) \<Rightarrow> fragment (int a) svgY (int b) rs)
          = rectangle_path (case r of (a, b) \<Rightarrow> (a, svgY, b - a, rs))"
    if "r \<in> set (runs c row 0 None)" for r
  proof -
    obtain a b where r: "r = (a, b)" by (cases r)
    with that have "a < b" by (auto intro: runs_ordered)
    then show ?thesis
      by (simp add: r fragment_rectangle)
  qed
  then show ?thesis
    unfolding row_rectangles_def map_map comp_def
    by (intro arg_cong [where f = concat] map_cong refl)
qed

lemma scan_row_rectangles:
  assumes "length qc = width * height" "svgY < height"
  shows "scan_row qc width height c rs svgY acc
         = acc @ concat (map rectangle_path
                   (row_rectangles c (buffer_row qc width (height - 1 - svgY)) svgY rs))"
  by (simp only: scan_row_runs [OF assms] row_fragments)

lemma fold_scan_row:
  assumes "length qc = width * height" "\<And>svgY. svgY \<in> set ys \<Longrightarrow> svgY < height"
  shows "fold (scan_row qc width height c rs) ys acc
         = acc @ concat (map (\<lambda>svgY. concat (map rectangle_path
                   (row_rectangles c (buffer_row qc width (height - 1 - svgY)) svgY rs))) ys)"
  using assms(2)
proof (induction ys arbitrary: acc)
  case Nil
  then show ?case by simp
next
  case (Cons y ys)
  then have "y < height" by simp
  from scan_row_rectangles [OF assms(1) this] Cons show ?case
    by simp
qed

lemma concat_map_concat:
  "concat (map f (concat xss)) = concat (map (\<lambda>xs. concat (map f xs)) xss)"
  by (induction xss) simp_all

lemma sampled_rows_less: "svgY \<in> set (sampled_rows height rs) \<Longrightarrow> svgY < height"
  by (simp add: sampled_rows_def)

lemma scan_rows_rectangles:
  assumes "length qc = width * height"
  shows "scan_rows qc width height c s 0 acc
         = acc @ concat (map rectangle_path (concat (map
             (\<lambda>svgY. row_rectangles c (buffer_row qc width (height - 1 - svgY)) svgY (rowStep s))
             (sampled_rows height (rowStep s)))))"
  unfolding scan_rows_fold visited_rows_sampled concat_map_concat map_map comp_def
  by (rule fold_scan_row [OF assms sampled_rows_less])

lemma length_repack: "length (fst (repack p width height)) = width * height"
  by (simp add: repack_eq)

subsection \<open>Shapes\<close>

lemma runs_empty_iff: "runs c ps x st = [] \<longleftrightarrow> st = None \<and> c \<notin> set ps"
  by (induction c ps x st rule: runs.induct) auto

lemma rectangle_path_nonempty: "rectangle_path r \<noteq> []"
  by (cases r) (simp add: rectangle_path_def)

lemma concat_rectangle_paths_empty: "concat (map rectangle_path rs) = [] \<longleftrightarrow> rs = []"
  by (cases rs) (simp_all add: rectangle_path_nonempty)

lemma row_rectangles_empty: "row_rectangles c row svgY rs = [] \<longleftrightarrow> c \<notin> set row"
  by (simp add: row_rectangles_def runs_empty_iff)

lemma pathData_empty_iff:
  assumes "length qc = width * height"
  shows "scan_rows qc width height c s 0 '''' = ''''
         \<longleftrightarrow> (\<forall>svgY \<in> set (sampled_rows height (rowStep s)).
                c \<notin> set (buffer_row qc width (height - 1 - svgY)))"
  unfolding scan_rows_rectangles [OF assms] append_Nil concat_rectangle_paths_empty
  by (simp add: row_rectangles_empty)

lemma fold_trace_color:
  "fold (trace_color qc width height s) uc svgPaths
     = svgPaths @ concat (map (\<lambda>c. path_element c (scan_rows qc width height c s 0 ''''))
                      (shape_colors qc uc width height s))"
  by (induction uc arbitrary: svgPaths) (simp_all add: shape_colors_def trace_color_def Let_def)

lemma vectorize_shapes:
  "vectorize p width height s
     = document width height
         (concat (map (\<lambda>c. path_element c
                         (scan_rows (fst (repack p width height)) width height c s 0 ''''))
            (shape_colors (fst (repack p width height)) (snd (repack p width height))
               width height s)))"
  by (simp add: vectorize_def fold_trace_color split: prod.split)

lemma unique_colors_repack:
  "distinct (snd (repack p width height))"
  "set (snd (repack p width height)) = {c \<in> set (fst (repack p width height)). c \<noteq> 0}"
  by (simp_all add: repack_eq distinct_collect set_collect)

lemma buffer_row_subset: "set (buffer_row qc width r) \<subseteq> set qc"
  unfolding buffer_row_def
  by (meson set_take_subset set_drop_subset subset_trans)

lemma shape_colors_mem:
  "c \<in> set (shape_colors (fst (repack p width height)) (snd (repack p width height))
              width height s)
   \<longleftrightarrow> c \<noteq> 0 \<and> (\<exists>svgY \<in> set (sampled_rows height (rowStep s)).
          c \<in> set (buffer_row (fst (repack p width height)) width (height - 1 - svgY)))"
  (is "?L \<longleftrightarrow> ?nz \<and> ?R")
proof -
  let ?qc = "fst (repack p width height)"
  have mem: "?L \<longleftrightarrow> (c \<in> set ?qc \<and> ?nz) \<and> ?R"
    unfolding shape_colors_def set_filter mem_Collect_eq unique_colors_repack(2)
      pathData_empty_iff [OF length_repack]
    by blast
  have "c \<in> set ?qc" if ?R
    using that buffer_row_subset [of ?qc width] by blast
  with mem show ?thesis
    by blast
qed

lemma count_distinct: "distinct xs \<Longrightarrow> count_list xs c = (if c \<in> set xs then 1 else 0)"
  by (induction xs) auto

lemma distinct_shape_colors:
  "distinct (shape_colors (fst (repack p width height)) (snd (repack p width height))
               width height s)"
  by (simp add: shape_colors_def unique_colors_repack(1))

lemma buffer_rows_cover:
  assumes len: "length qc = width * height" and c: "c \<in> set qc"
  shows "\<exists>r<height. c \<in> set (buffer_row qc width r)"
proof -
  from c obtain k where k: "k < length qc" "qc ! k = c"
    by (auto simp: in_set_conv_nth)
  from k(1) len have w: "0 < width"
    by (cases width) auto
  define r i where "r = k div width" and "i = k mod width"
  have ri: "r * width + i = k"
    by (simp add: r_def i_def)
  have r: "r < height"
    using k(1) len w by (simp add: r_def less_mult_imp_div_less mult.commute)
  have i: "i < width"
    using w by (simp add: i_def)
  have "i < length (buffer_row qc width r)"
    using i k(1) ri by (auto simp: buffer_row_def)
  moreover have "buffer_row qc width r ! i = c"
    using i k ri by (simp add: buffer_row_def)
  ultimately have "c \<in> set (buffer_row qc width r)"
    by (metis nth_mem)
  with r show ?thesis by blast
qed

lemma rowStep_one: "s < 40 \<Longrightarrow> rowStep s = 1"
  by (simp add: rowStep_def)

lemma sampled_rows_one: "sampled_rows height 1 = [0..<height]"
  by (simp add: sampled_rows_def)

lemma all_rows_sampled:
  assumes "length qc = width * height"
  shows "(\<exists>svgY \<in> set (sampled_rows height 1). c \<in> set (buffer_row qc width (height - 1 - svgY)))
         \<longleftrightarrow> c \<in> set qc"
  unfolding sampled_rows_one
proof
  assume "\<exists>svgY \<in> set [0..<height]. c \<in> set (buffer_row qc width (height - 1 - svgY))"
  then show "c \<in> set qc"
    using buffer_row_subset [of qc width] by blast
next
  assume "c \<in> set qc"
  from buffer_rows_cover [OF assms this] obtain r
    where r: "r < height" "c \<in> set (buffer_row qc width r)" by blast
  from r(1) have "height - 1 - r \<in> set [0..<height]" and "height - 1 - (height - 1 - r) = r"
    by auto
  with r(2) show "\<exists>svgY \<in> set [0..<height]. c \<in> set (buffer_row qc width (height - 1 - svgY))"
    by metis
qed

subsection \<open>The pipeline on the example images\<close>

lemmas pixel_eval = texel_at_def texel_def clamp_index_def w_kernel_def vadd_def vscale_def
      quantize_def luminance_def quantize1_def to_unorm8_def round_def
      floor_rat_numeral floor_rat_one_numeral

lemma upt_small: "[0..<1] = [0]" "[0..<4] = [0, 1, 2, 3]" "[0..<6] = [0, 1, 2, 3, 4, 5]"
  by (simp_all add: upt_conv_Cons)

lemma qFactor_0: "qFactor 0 = 4"
  by (simp add: qFactor_def)


lemma readPixels_topWhite6:
  "readPixels topWhite6 (qFactor 0)
     = [176, 176, 176, 255, 76, 76, 76, 255, 12, 12, 12, 0, 0, 0, 0, 0, 0, 0, 0, 0, 0, 0, 0, 0]"
proof -
  have d: "naturalWidth topWhite6 = 1" "naturalHeight topWhite6 = 6"
    by (simp_all add: topWhite6_def)
  show ?thesis
    unfolding readPixels_def d upt_small qFactor_0
    by (simp add: fragColor_centre topWhite6_def pixel_eval)
qed

lemma trace_browser:
  "traceImageOffline browser (Some img) s
     = Inr (vectorize (readPixels img (qFactor s)) (naturalWidth img) (naturalHeight img) s)"
  by (simp add: traceImageOffline_def processOnGPU_def browser_def)

subsection \<open>Images without colour\<close>

lemma texel_black:
  assumes len: "length (samples img) = naturalWidth img * naturalHeight img"
    and black: "\<forall>p \<in> set (samples img). fst p = 0 \<and> fst (snd p) = 0 \<and> fst (snd (snd p)) = 0"
    and xy: "tx < naturalWidth img" "ty < naturalHeight img"
  shows "texel img tx ty = (0, 0, 0)"
proof -
  have "ty * naturalWidth img + tx < length (samples img)"
    unfolding len by (rule pixel_index_less [OF xy(2,1)])
  then have "samples img ! (ty * naturalWidth img + tx) \<in> set (samples img)"
    by (rule nth_mem)
  with black show ?thesis
    by (auto simp: texel_def split: prod.split)
qed

lemma quantize_zero: "quantize q (0, 0, 0) = (0, 0, 0)"
proof -
  have "\<lfloor>1 / 2 :: rat\<rfloor> = 0"
    by (rule floor_unique) simp_all
  then show ?thesis
    by (simp add: quantize_def quantize1_def)
qed

lemma fragColor_black:
  assumes len: "length (samples img) = naturalWidth img * naturalHeight img"
    and black: "\<forall>p \<in> set (samples img). fst p = 0 \<and> fst (snd p) = 0 \<and> fst (snd (snd p)) = 0"
    and wh: "0 < naturalWidth img" "0 < naturalHeight img"
  shows "\<exists>a. fragColor img q fx fy = [0, 0, 0, a]"
proof -
  have t: "texel img (clamp_index (naturalWidth img) kx) (clamp_index (naturalHeight img) ky)
             = (0, 0, 0)" for kx ky
    by (rule texel_black [OF len black clamp_index_less [OF wh(1)] clamp_index_less [OF wh(2)]])
  have "blur img (v_texCoord (naturalWidth img) (naturalHeight img) fx fy)
           (1 / of_nat (naturalWidth img), 1 / of_nat (naturalHeight img))
         = vscale (0, 0, 0) (987 / 1000)"
    by (rule blur_constant [OF wh]) (rule t)
  then have b: "blur img (v_texCoord (naturalWidth img) (naturalHeight img) fx fy)
           (1 / of_nat (naturalWidth img), 1 / of_nat (naturalHeight img)) = (0, 0, 0)"
    by (simp add: vscale_def)
  show ?thesis
    unfolding fragColor_def Let_def fragment_main_centre [OF wh] b quantize_zero
    by (simp add: to_unorm8_flag)
qed

lemma byteAt_skip: "byteAt (a # b # c # d # rest) (4 + n) = byteAt rest n"
  by (simp add: byteAt_def)

lemma byteAt_rgb_zero:
  assumes "\<forall>q \<in> set qs. \<exists>a. q = [0, 0, 0, a]" and "j < 3"
  shows "byteAt (concat qs) (4 * k + j) = 0"
  using assms(1)
proof (induction qs arbitrary: k)
  case Nil
  then show ?case by (simp add: byteAt_def)
next
  case (Cons q qs)
  then obtain a where q: "q = [0, 0, 0, a]" by auto
  show ?case
  proof (cases k)
    case 0
    from assms(2) consider "j = 0" | "j = 1" | "j = 2" by linarith
    then show ?thesis
      by cases (simp_all add: 0 q byteAt_def)
  next
    case (Suc k')
    have "4 * k + j = 4 + (4 * k' + j)"
      by (simp add: Suc)
    then show ?thesis
      using Cons by (simp only: q concat.simps append_Cons append_Nil byteAt_skip) simp
  qed
qed

lemma concat_nested:
  "concat (map (\<lambda>y. concat (map (g y) xs)) ys) = concat (concat (map (\<lambda>y. map (g y) xs) ys))"
  by (induction ys) simp_all

lemma colorAt_black:
  assumes len: "length (samples img) = naturalWidth img * naturalHeight img"
    and black: "\<forall>p \<in> set (samples img). fst p = 0 \<and> fst (snd p) = 0 \<and> fst (snd (snd p)) = 0"
  shows "colorAt (readPixels img q) k = 0"
proof -
  let ?qs = "concat (map (\<lambda>fy. map (\<lambda>fx. fragColor img q fx fy) [0..<naturalWidth img])
                         [0..<naturalHeight img])"
  have rp: "readPixels img q = concat ?qs"
    unfolding readPixels_def by (rule concat_nested)
  have "\<exists>a. f = [0, 0, 0, a]" if "f \<in> set ?qs" for f
  proof -
    from that obtain fx fy where "fx < naturalWidth img" "fy < naturalHeight img"
      and f: "f = fragColor img q fx fy"
      by auto
    then have "0 < naturalWidth img" "0 < naturalHeight img"
      by simp_all
    from fragColor_black [OF len black this] f show ?thesis
      by simp
  qed
  then have all: "\<forall>f \<in> set ?qs. \<exists>a. f = [0, 0, 0, a]"
    by blast
  have "byteAt (concat ?qs) (4 * k + 0) = 0" "byteAt (concat ?qs) (4 * k + 1) = 0"
    "byteAt (concat ?qs) (4 * k + 2) = 0"
    by (rule byteAt_rgb_zero [OF all], simp)+
  then show ?thesis
    unfolding rp colorAt_def packedColorAt_def
    by (simp add: mult.commute add.commute)
qed

lemma blank_when_background:
  assumes "set (fst (repack p width height)) \<subseteq> {0}"
  shows "vectorize p width height s = document width height ''''"
proof -
  from assms have "set (snd (repack p width height)) = {}"
    unfolding unique_colors_repack(2) by auto
  then have "snd (repack p width height) = []"
    by simp
  then show ?thesis
    by (cases "repack p width height") (simp add: vectorize_def)
qed

lemma black_buffer:
  assumes len: "length (samples img) = naturalWidth img * naturalHeight img"
    and black: "\<forall>p \<in> set (samples img). fst p = 0 \<and> fst (snd p) = 0 \<and> fst (snd (snd p)) = 0"
  shows "set (fst (repack (readPixels img q) width height)) \<subseteq> {0}"
  by (auto simp: repack_eq colorAt_black [OF len black])

subsection \<open>Indices\<close>

lemma visited_rows_less: "svgY \<in> set (visited_rows height s 0) \<Longrightarrow> svgY < height"
  by (simp add: visited_rows_sampled sampled_rows_less)

lemma packed_index_less:
  assumes "y < height" "x < width"
  shows "(y * width + x) * 4 + 2 < width * height * (4 :: nat)"
  using pixel_index_less [OF assms] by simp

subsection \<open>The rows of the read-back\<close>

lemma nth_concat_uniform:
  assumes "\<forall>c \<in> set cs. length c = n" "k < length cs" "j < n"
  shows "concat cs ! (k * n + j) = cs ! k ! j"
  using assms
proof (induction cs arbitrary: k)
  case Nil
  then show ?case by simp
next
  case (Cons c cs)
  then have len: "length c = n" by simp
  show ?case
  proof (cases k)
    case 0
    with Cons.prems len show ?thesis
      by (simp add: nth_append)
  next
    case (Suc k')
    with Cons.prems have "concat cs ! (k' * n + j) = cs ! k' ! j"
      by (intro Cons.IH) simp_all
    moreover have "(c @ concat cs) ! (k * n + j) = concat cs ! (k' * n + j)"
      by (simp add: Suc nth_append len)
    ultimately show ?thesis
      by (simp add: Suc)
  qed
qed

lemma length_concat_uniform:
  "\<forall>c \<in> set cs. length c = n \<Longrightarrow> length (concat cs) = length cs * n"
  by (induction cs) simp_all

lemma length_fragColor: "length (fragColor img q fx fy) = 4"
  by (simp add: fragColor_def Let_def split: prod.split)

text \<open>The fragments in the order of the read-back.\<close>

lemma fragments_nth:
  assumes "fx < width" "fy < height"
  shows "concat (map (\<lambda>y. map (\<lambda>x. f x y) [0..<width]) [0..<height]) ! (fy * width + fx) = f fx fy"
proof -
  let ?rows = "map (\<lambda>y. map (\<lambda>x. f x y) [0..<width]) [0..<height]"
  have "concat ?rows ! (fy * width + fx) = ?rows ! fy ! fx"
    by (rule nth_concat_uniform) (use assms in auto)
  also have "\<dots> = f fx fy"
    using assms by simp
  finally show ?thesis .
qed

lemma length_fragments:
  "length (concat (map (\<lambda>y. map (\<lambda>x. f x y) [0..<width]) [0..<height])) = height * width"
  using length_concat_uniform [of "map (\<lambda>y. map (\<lambda>x. f x y) [0..<width]) [0..<height]" width]
  by simp

lemma byteAt_readPixels:
  assumes "fx < naturalWidth img" "fy < naturalHeight img" "j < 4"
  shows "byteAt (readPixels img q) ((fy * naturalWidth img + fx) * 4 + j)
         = byteAt (fragColor img q fx fy) j"
proof -
  let ?w = "naturalWidth img" and ?h = "naturalHeight img"
  let ?cs = "concat (map (\<lambda>y. map (\<lambda>x. fragColor img q x y) [0..<?w]) [0..<?h])"
  have rp: "readPixels img q = concat ?cs"
    unfolding readPixels_def by (rule concat_nested)
  have four: "\<forall>c \<in> set ?cs. length c = 4"
    by (auto simp: length_fragColor)
  have k: "fy * ?w + fx < length ?cs"
    unfolding length_fragments using pixel_index_less [OF assms(2,1)] by (simp add: mult.commute)
  have "concat ?cs ! ((fy * ?w + fx) * 4 + j) = ?cs ! (fy * ?w + fx) ! j"
    by (rule nth_concat_uniform [OF four k assms(3)])
  also have "\<dots> = fragColor img q fx fy ! j"
    by (simp only: fragments_nth [OF assms(1,2)])
  finally have nth: "concat ?cs ! ((fy * ?w + fx) * 4 + j) = fragColor img q fx fy ! j" .
  have "(fy * ?w + fx) * 4 + j < length (concat ?cs)"
    unfolding length_concat_uniform [OF four] using k assms(3) by simp
  then show ?thesis
    unfolding rp byteAt_def nth using assms(3) by (simp add: length_fragColor)
qed

lemma colorAt_readPixels:
  assumes "fx < naturalWidth img" "fy < naturalHeight img"
  shows "colorAt (readPixels img q) (fy * naturalWidth img + fx) = fragment_color img q fx fy"
  unfolding colorAt_def fragment_color_def packedColorAt_def
  using byteAt_readPixels [OF assms, of 0 q] byteAt_readPixels [OF assms, of 1 q]
    byteAt_readPixels [OF assms, of 2 q]
  by (simp add: numeral_2_eq_2)

text \<open>
  Row \<open>r\<close> of the quantized buffer holds the fragments of frame-buffer row \<open>r\<close>, which
  \<open>fragColor_centre\<close> computes from the texel rows \<open>r - 2 .. r + 2\<close>, that is from the
  image rows counted from the top.
\<close>

lemma buffer_row_readPixels:
  assumes "r < naturalHeight img"
  shows "buffer_row (fst (repack (readPixels img q) (naturalWidth img) (naturalHeight img)))
           (naturalWidth img) r
         = map (\<lambda>fx. fragment_color img q fx r) [0..<naturalWidth img]"
proof (rule nth_equalityI)
  let ?w = "naturalWidth img" and ?h = "naturalHeight img"
  let ?qc = "fst (repack (readPixels img q) ?w ?h)"
  have "Suc r * ?w \<le> ?h * ?w"
    using assms by (intro mult_le_mono1) simp
  then have fit: "Suc r * ?w \<le> length ?qc"
    by (simp add: length_repack mult.commute)
  show len: "length (buffer_row ?qc ?w r) = length (map (\<lambda>fx. fragment_color img q fx r) [0..<?w])"
    by (simp add: length_buffer_row [OF fit])
  fix i
  assume "i < length (buffer_row ?qc ?w r)"
  then have i: "i < ?w"
    by (simp add: length_buffer_row [OF fit])
  from pixelAt_buffer_row [OF fit i] have "buffer_row ?qc ?w r ! i = ?qc ! (r * ?w + i)"
    by (simp add: pixelAt_def split: if_splits)
  also have "\<dots> = colorAt (readPixels img q) (r * ?w + i)"
    using pixel_index_less [OF assms i] by (simp add: repack_eq)
  also have "\<dots> = fragment_color img q i r"
    by (rule colorAt_readPixels [OF i assms])
  finally show "buffer_row ?qc ?w r ! i = map (\<lambda>fx. fragment_color img q fx r) [0..<?w] ! i"
    using i by simp
qed

text \<open>
  So the rectangles drawn at \<open>svgY\<close> are the runs of the fragments of row
  \<open>height - 1 - svgY\<close>: the image row \<open>height - 1 - svgY\<close> counted from the top.
\<close>

lemma traced_rows_are_mirrored:
  "scan_rows (fst (repack (readPixels img q) (naturalWidth img) (naturalHeight img)))
     (naturalWidth img) (naturalHeight img) c s 0 ''''
   = concat (map rectangle_path (concat (map
       (\<lambda>svgY. row_rectangles c
                  (map (\<lambda>fx. fragment_color img q fx (naturalHeight img - 1 - svgY))
                     [0..<naturalWidth img])
                  svgY (rowStep s))
       (sampled_rows (naturalHeight img) (rowStep s)))))"
proof -
  have "row_rectangles c
          (buffer_row (fst (repack (readPixels img q) (naturalWidth img) (naturalHeight img)))
             (naturalWidth img) (naturalHeight img - 1 - svgY)) svgY (rowStep s)
        = row_rectangles c
            (map (\<lambda>fx. fragment_color img q fx (naturalHeight img - 1 - svgY))
               [0..<naturalWidth img]) svgY (rowStep s)"
    if "svgY \<in> set (sampled_rows (naturalHeight img) (rowStep s))" for svgY
  proof -
    from that have "svgY < naturalHeight img"
      by (rule sampled_rows_less)
    then have "naturalHeight img - 1 - svgY < naturalHeight img"
      by simp
    then show ?thesis
      by (simp only: buffer_row_readPixels)
  qed
  then show ?thesis
    unfolding scan_rows_rectangles [OF length_repack] append_Nil
    by (intro arg_cong [where f = "\<lambda>xs. concat (map rectangle_path (concat xs))"] map_cong refl)
qed

subsection \<open>The striped 4x4 image\<close>




subsection \<open>The checked loops\<close>

lemma element_nat: "n < length a \<Longrightarrow> element a (int n) = Some (a ! n)"
  by (simp add: element_def)

lemma store_nat: "n < length a \<Longrightarrow> store a (int n) v = Some (a[n := v])"
  by (simp add: store_def)

lemma fold_checked_agrees:
  assumes "\<And>x s. x \<in> set xs \<Longrightarrow> I s \<Longrightarrow> f x s = Some (g x s) \<and> I (g x s)" and "I s"
  shows "fold_checked f xs s = Some (fold g xs s) \<and> I (fold g xs s)"
  using assms
proof (induction xs arbitrary: s)
  case Nil
  then show ?case by simp
next
  case (Cons x xs)
  from Cons.prems(1) [of x s] Cons.prems(2) have step: "f x s = Some (g x s)" "I (g x s)"
    by simp_all
  have "fold_checked f xs (g x s) = Some (fold g xs (g x s)) \<and> I (fold g xs (g x s))"
    by (rule Cons.IH) (use Cons.prems(1) step(2) in auto)
  then show ?case
    by (simp add: step(1))
qed

lemma packedColorAt_checked_agrees:
  assumes "n + 2 < length p"
  shows "packedColorAt_checked p (int n) = Some (packedColorAt p n)"
proof -
  have e: "element p (int n) = Some (p ! n)" "element p (int n + 1) = Some (p ! (n + 1))"
    "element p (int n + 2) = Some (p ! (n + 2))"
    using assms by (simp_all add: element_def nat_add_distrib)
  show ?thesis
    using assms by (simp add: packedColorAt_checked_def e packedColorAt_def byteAt_def)
qed

lemma repack_pixel_checked_agrees:
  assumes "(y * width + x) * 4 + 2 < length p" "y * width + x < length qc"
  shows "repack_pixel_checked p width y x (qc, uc) = Some (repack_pixel p width y x (qc, uc))"
proof -
  have i: "int y * int width + int x = int (y * width + x)"
    "int (y * width + x) * 4 = int ((y * width + x) * 4)"
    by simp_all
  show ?thesis
    unfolding repack_pixel_checked_def repack_pixel_def Let_def prod.case i
    by (simp only: packedColorAt_checked_agrees [OF assms(1)] store_nat [OF assms(2)]
        option.case)
qed

lemma length_repack_pixel:
  "length (fst (repack_pixel p width y x (qc, uc))) = length qc"
  by (simp add: repack_pixel_def Let_def)

lemma repack_checked_agrees:
  assumes "length p = width * height * 4"
  shows "repack_checked p width height = Some (repack p width height)"
proof -
  let ?I = "\<lambda>st :: u32 list \<times> u32 list. length (fst st) = width * height"
  have pixel: "repack_pixel_checked p width y x st = Some (repack_pixel p width y x st)
               \<and> ?I (repack_pixel p width y x st)"
    if "y < height" "x < width" "?I st" for y x st
  proof -
    obtain qc uc where st: "st = (qc, uc)" by (cases st)
    have "(y * width + x) * 4 + 2 < length p"
      unfolding assms by (rule packed_index_less [OF that(1,2)])
    moreover have "y * width + x < length qc"
      using pixel_index_less [OF that(1,2)] that(3) by (simp add: st)
    ultimately show ?thesis
      using that(3) by (simp add: st repack_pixel_checked_agrees length_repack_pixel)
  qed
  have row: "fold_checked (repack_pixel_checked p width y) [0..<width] st
               = Some (fold (repack_pixel p width y) [0..<width] st)
             \<and> ?I (fold (repack_pixel p width y) [0..<width] st)"
    if "y < height" "?I st" for y st
    by (rule fold_checked_agrees [where I = ?I]) (use that pixel in auto)
  have "fold_checked (\<lambda>y. fold_checked (repack_pixel_checked p width y) [0..<width]) [0..<height]
          (replicate (width * height) 0, [])
        = Some (fold (\<lambda>y. fold (repack_pixel p width y) [0..<width]) [0..<height]
                  (replicate (width * height) 0, []))
        \<and> ?I (fold (\<lambda>y. fold (repack_pixel p width y) [0..<width]) [0..<height]
                  (replicate (width * height) 0, []))"
    by (rule fold_checked_agrees [where I = ?I]) (use row in auto)
  then show ?thesis
    by (simp add: repack_checked_def repack_def)
qed

lemma scan_step_checked_agrees:
  assumes "off + x < length qc"
  shows "scan_step_checked qc (int off) c svgY rs x st = Some (scan_step qc off c svgY rs x st)"
proof -
  have e: "element qc (int off + int x) = Some (qc ! (off + x))"
    using element_nat [OF assms] by simp
  have p: "pixelAt qc (off + x) = Some (qc ! (off + x))"
    using assms by (simp add: pixelAt_def)
  show ?thesis
    by (cases st) (simp add: scan_step_checked_def scan_step_def e p)
qed

lemma scan_row_checked_agrees:
  assumes "length qc = width * height" "svgY < height"
  shows "scan_row_checked qc width height c rs svgY acc
         = Some (scan_row qc width height c rs svgY acc)"
proof -
  define r where "r = height - 1 - svgY"
  have r: "r < height" "int height - 1 - int svgY = int r"
    using assms(2) by (simp_all add: r_def)
  have off: "int r * int width = int (r * width)"
    by simp
  have "fold_checked (scan_step_checked qc (int (r * width)) c svgY rs) [0..<width] (- 1, acc)
          = Some (fold (scan_step qc (r * width) c svgY rs) [0..<width] (- 1, acc)) \<and> True"
  proof (rule fold_checked_agrees [where I = "\<lambda>_. True"])
    fix x st
    assume "x \<in> set [0..<width]"
    then have "r * width + x < length qc"
      unfolding assms(1) using pixel_index_less [OF r(1)] by simp
    then show "scan_step_checked qc (int (r * width)) c svgY rs x st
                 = Some (scan_step qc (r * width) c svgY rs x st) \<and> True"
      by (simp only: scan_step_checked_agrees simp_thms)
  qed simp
  then show ?thesis
    unfolding scan_row_checked_def scan_row_def Let_def r(2) off r_def [symmetric]
    by (simp split: prod.split)
qed

lemma scan_rows_checked_agrees:
  assumes "length qc = width * height"
  shows "scan_rows_checked qc width height c s svgY acc
         = Some (scan_rows qc width height c s svgY acc)"
  using assms
proof (induction qc width height c s svgY acc rule: scan_rows.induct)
  case (1 qc width height c s svgY acc)
  show ?case
  proof (cases "svgY < height")
    case True
    have row: "scan_row_checked qc width height c (rowStep s) svgY acc
               = Some (scan_row qc width height c (rowStep s) svgY acc)"
      by (rule scan_row_checked_agrees [OF "1.prems" True])
    show ?thesis
      by (subst scan_rows_checked.simps, subst scan_rows.simps)
         (simp add: True row "1.IH" [OF True "1.prems"])
  next
    case False
    then show ?thesis
      by (subst scan_rows_checked.simps, subst scan_rows.simps) simp
  qed
qed

lemma trace_color_checked_agrees:
  assumes "length qc = width * height"
  shows "trace_color_checked qc width height s c acc = Some (trace_color qc width height s c acc)"
  by (simp add: trace_color_checked_def trace_color_def scan_rows_checked_agrees [OF assms])

lemma vectorize_checked_agrees:
  assumes "length p = width * height * 4"
  shows "vectorize_checked p width height s = Some (vectorize p width height s)"
proof -
  obtain qc uc where r: "repack p width height = (qc, uc)"
    by (cases "repack p width height")
  have len: "length qc = width * height"
    using length_repack [of p width height] by (simp add: r)
  have "fold_checked (trace_color_checked qc width height s) uc []
          = Some (fold (trace_color qc width height s) uc []) \<and> True"
    by (rule fold_checked_agrees [where I = "\<lambda>_. True"])
       (simp_all add: trace_color_checked_agrees [OF len])
  then show ?thesis
    by (simp add: vectorize_checked_def vectorize_def repack_checked_agrees [OF assms] r)
qed

lemma length_readPixels: "length (readPixels img q) = naturalWidth img * naturalHeight img * 4"
proof -
  let ?w = "naturalWidth img" and ?h = "naturalHeight img"
  have row: "length (concat (map (\<lambda>fx. fragColor img q fx fy) [0..<?w])) = ?w * 4" for fy
    using length_concat_uniform [of "map (\<lambda>fx. fragColor img q fx fy) [0..<?w]" 4]
    by (simp add: length_fragColor)
  have "length (readPixels img q) = ?h * (?w * 4)"
    unfolding readPixels_def
    using length_concat_uniform
      [of "map (\<lambda>fy. concat (map (\<lambda>fx. fragColor img q fx fy) [0..<?w])) [0..<?h]" "?w * 4"]
    by (simp add: row)
  then show ?thesis
    by (simp add: mult.commute mult.left_commute)
qed

text \<open>The checks are not idle: two bytes short of one pixel, the repacking loop fails.\<close>

lemma checked_short_buffer: "vectorize_checked [255, 0, 0, 255] 1 2 0 = None"
  by code_simp

text \<open>The buffer that \<open>processOnGPU\<close> returns has the length that the loops need.\<close>

lemma processOnGPU_checked:
  assumes "processOnGPU e img s = Inr (packedData, width, height)"
  shows "length packedData = width * height * 4"
    and "vectorize_checked packedData width height s = Some (vectorize packedData width height s)"
proof -
  from assms have "packedData = readPixels img (qFactor s)" "width = naturalWidth img"
    "height = naturalHeight img"
    by (simp_all add: processOnGPU_def Let_def split: if_splits)
  then show len: "length packedData = width * height * 4"
    by (simp add: length_readPixels)
  show "vectorize_checked packedData width height s = Some (vectorize packedData width height s)"
    by (rule vectorize_checked_agrees [OF len])
qed

subsection \<open>The smoothing kernel\<close>

text \<open>
  C6, as the claim states it, fails: the 25 weights sum to 0.987, not to 1, and the blur
  of the all-white 1x1 image is not white.
\<close>

theorem kernel_sum_counterexample:
  "sum_list w_kernel \<noteq> 1 \<and> blur white1 (v_texCoord 1 1 0 0) (1, 1) \<noteq> texel white1 0 0"
proof -
  have "sum_list w_kernel \<noteq> 1"
    by (simp add: w_kernel_def)
  moreover have "texel white1 0 0 = (1, 1, 1)"
    by (simp add: white1_def texel_def)
  then have "blur white1 (v_texCoord 1 1 0 0) (1, 1) \<noteq> texel white1 0 0"
    unfolding blur_white1 by simp
  ultimately show ?thesis
    by (rule conjI)
qed

text \<open>
  C6, amended: the fixed 5x5 kernel has 25 weights that sum to 987/1000, so the blur of a
  pixel whose 5x5 neighbourhood (with edge clamping) has one colour \<open>c\<close> is \<open>0.987 * c\<close>
  in every channel.
\<close>

theorem kernel_sum_and_constant_blur:
  assumes "0 < naturalWidth img" and "0 < naturalHeight img"
    and "\<forall>i\<in>{-2..2}. \<forall>j\<in>{-2..2}.
           texel img (clamp_index (naturalWidth img) (int fx + i))
                     (clamp_index (naturalHeight img) (int fy + j)) = c"
  shows "length w_kernel = 25 \<and> sum_list w_kernel = 987 / 1000 \<and>
         blur img (v_texCoord (naturalWidth img) (naturalHeight img) fx fy)
           (1 / of_nat (naturalWidth img), 1 / of_nat (naturalHeight img))
         = vscale c (987 / 1000)"
proof -
  have region: "texel img (clamp_index (naturalWidth img) (int fx + i))
                     (clamp_index (naturalHeight img) (int fy + j)) = c"
    if "i \<in> {-2, -1, 0, 1, 2}" "j \<in> {-2, -1, 0, 1, 2}" for i j
  proof -
    from that have "i \<in> {-2..2}" "j \<in> {-2..2}" by auto
    with assms(3) show ?thesis by blast
  qed
  have "blur img (v_texCoord (naturalWidth img) (naturalHeight img) fx fy)
           (1 / of_nat (naturalWidth img), 1 / of_nat (naturalHeight img))
         = vscale c (987 / 1000)"
    by (rule blur_constant [OF assms(1,2) region])
  moreover have "length w_kernel = 25" "sum_list w_kernel = 987 / 1000"
    by (simp_all add: w_kernel_def)
  ultimately show ?thesis by simp
qed

theorem kernel_sum_and_constant_blur_witness:
  "length w_kernel = 25 \<and> sum_list w_kernel = 987 / 1000 \<and>
   blur white1 (v_texCoord (naturalWidth white1) (naturalHeight white1) 0 0)
     (1 / of_nat (naturalWidth white1), 1 / of_nat (naturalHeight white1))
   = vscale (1, 1, 1) (987 / 1000)"
  by (rule kernel_sum_and_constant_blur)
     (simp_all add: white1_def texel_def clamp_index_def)

subsection \<open>Round-to-nearest quantization and its range\<close>

lemma q48: "qFactor 48 = 16"
  by (simp add: qFactor_def)

text \<open>
  C3, as the claim states it, fails: with simplification 48 (\<open>qFactor = 16\<close>) the averaged
  channel of the all-white image is 0.987, for which \<open>round(c * 255 / qFactor) * qFactor\<close>
  is 256, not a value in 0..255; the byte that is stored is 255.
\<close>

theorem quantize_range_counterexample:
  "quantize1 (qFactor 48) (fst (blur white1 (v_texCoord 1 1 0 0) (1, 1))) * 255 = 256 \<and>
   uint (to_unorm8 (quantize1 (qFactor 48) (fst (blur white1 (v_texCoord 1 1 0 0) (1, 1))))) = 255"
proof -
  have a: "quantize1 16 (987 / 1000) = 256 / 255"
    by code_simp
  have b: "uint (to_unorm8 (256 / 255)) = 255"
    by code_simp
  show ?thesis
    unfolding blur_white1 fst_conv q48 a b by simp
qed

text \<open>
  C3, amended: \<open>qFactor = max(4, floor(simplification / 3))\<close>; the shader quantizes each of
  the three channels independently as \<open>q(c) = round(c * 255 / qFactor) * qFactor\<close> (on the
  scale 0..255) with rounding to nearest; the value stored per channel is \<open>q(c)\<close>
  saturated to the range 0..255, an integer in 0..255.
\<close>

theorem quantize_rounds_to_nearest:
  "qFactor s = max 4 (s div 3) \<and>
   quantize (qFactor s) (r, g, b)
     = (quantize1 (qFactor s) r, quantize1 (qFactor s) g, quantize1 (qFactor s) b) \<and>
   quantize1 (qFactor s) c * 255 = of_int (round (c * 255 / of_int (qFactor s)) * qFactor s) \<and>
   \<bar>of_int (round (c * 255 / of_int (qFactor s))) - c * 255 / of_int (qFactor s)\<bar> \<le> 1 / 2 \<and>
   uint (to_unorm8 (quantize1 (qFactor s) c))
     = max 0 (min 255 (round (c * 255 / of_int (qFactor s)) * qFactor s)) \<and>
   uint (to_unorm8 (quantize1 (qFactor s) c)) \<in> {0..255}"
proof (intro conjI)
  show "qFactor s = max 4 (s div 3)"
    by (simp only: qFactor_def)
  show "quantize (qFactor s) (r, g, b)
     = (quantize1 (qFactor s) r, quantize1 (qFactor s) g, quantize1 (qFactor s) b)"
    by (simp add: quantize_def)
  show "quantize1 (qFactor s) c * 255 = of_int (round (c * 255 / of_int (qFactor s)) * qFactor s)"
    by (simp only: quantize1_round)
  show "\<bar>of_int (round (c * 255 / of_int (qFactor s))) - c * 255 / of_int (qFactor s)\<bar>
          \<le> (1 / 2 :: rat)"
    using of_int_round_abs_le [of "c * 255 / of_int (qFactor s)"] by simp
  show "uint (to_unorm8 (quantize1 (qFactor s) c))
     = max 0 (min 255 (round (c * 255 / of_int (qFactor s)) * qFactor s))"
    by (rule stored_quantized)
  show "uint (to_unorm8 (quantize1 (qFactor s) c)) \<in> {0..255}"
    unfolding stored_quantized by simp
qed

theorem quantize_rounds_to_nearest_witness:
  "qFactor 20 = max 4 (20 div 3) \<and> quantize1 (qFactor 20) (1 / 2) * 255 = 126 \<and>
   uint (to_unorm8 (quantize1 (qFactor 20) (1 / 2))) = 126"
proof -
  have q: "qFactor 20 = 6"
    by (simp add: qFactor_def)
  have r: "round (1 / 2 * 255 / rat_of_int 6) = 21"
    by code_simp
  have "quantize1 (qFactor 20) (1 / 2) * 255 = of_int (21 * 6)"
    and "uint (to_unorm8 (quantize1 (qFactor 20) (1 / 2))) = max 0 (min 255 (21 * 6))"
    using quantize_rounds_to_nearest [of 20 0 0 0 "1 / 2"] unfolding q r by blast+
  then show ?thesis
    unfolding q by simp
qed

subsection \<open>Idempotence of quantization\<close>

text \<open>
  C8: the per-channel quantization is idempotent for every \<open>qFactor \<ge> 4\<close>, on the
  shader's values and on the stored bytes 0..255, so re-quantizing a quantized buffer
  with the same \<open>qFactor\<close> returns the same buffer.
\<close>

theorem quantize_idempotent:
  assumes "4 \<le> q"
  shows "quantize1 q (quantize1 q c) = quantize1 q c \<and>
         quantize_byte q (quantize_byte q b) = quantize_byte q b \<and>
         map (quantize_byte q) (map (quantize_byte q) buf) = map (quantize_byte q) buf"
proof -
  from assms have q: "q \<noteq> 0" "0 < q" by simp_all
  show ?thesis
    by (simp add: quantize1_idem [OF q(1)] quantize_byte_idem [OF q(2)])
qed

theorem quantize_idempotent_witness:
  "quantize1 4 (quantize1 4 (1 / 3)) = quantize1 4 (1 / 3) \<and>
   quantize_byte 4 (quantize_byte 4 255) = quantize_byte 4 255 \<and>
   map (quantize_byte 4) (map (quantize_byte 4) [1, 2, 255]) = map (quantize_byte 4) [1, 2, 255]"
  by (rule quantize_idempotent) simp

subsection \<open>The scan of one colour\<close>



subsection \<open>Orientation\<close>

text \<open>
  C1 fails on the code. The read-back buffer holds the image rows from the top (texel row
  0 is the image's top row and is drawn into the bottom row of the frame buffer, which
  \<open>readPixels\<close> returns first), and the vectorizer reverses the rows once more. For the
  1x6 image whose top pixel is white, the three grey shapes of the smoothed stripe are
  drawn at \<open>svgY = 5, 4, 3\<close>, the brightest at the bottom; nothing is drawn at \<open>svgY = 0\<close>.
\<close>

theorem top_row_is_traced_at_the_bottom:
  \<open>traceImageOffline browser (Some topWhite6) 0 = Inr ''<svg viewBox="0 0 1 6" xmlns="http://www.w3.org/2000/svg" shape-rendering="crispEdges"><path d="M0,5h1v1h-1z " fill="rgb(176,176,176)" /><path d="M0,4h1v1h-1z " fill="rgb(76,76,76)" /><path d="M0,3h1v1h-1z " fill="rgb(12,12,12)" /></svg>''\<close>
proof -
  have d: "naturalWidth topWhite6 = 1" "naturalHeight topWhite6 = 6"
    by (simp_all add: topWhite6_def)
  show ?thesis
    unfolding trace_browser readPixels_topWhite6 d by code_simp
qed

subsection \<open>The 4x4 scenario\<close>



subsection \<open>One shape per colour\<close>

text \<open>
  C5, as the claim states it, fails when \<open>rowStep > 1\<close>: in a 1x2 buffer whose row 0 is red
  and whose row 1 is blue, at simplification 40 (\<open>rowStep = 2\<close>) only \<open>svgY = 0\<close>, that is
  buffer row 1, is scanned; red matches a pixel and has no shape in the document.
\<close>

theorem unsampled_color_counterexample:
  \<open>(0xFF0000 :: u32) \<noteq> 0 \<and> 0xFF0000 \<in> set (fst (repack [255, 0, 0, 255, 0, 0, 255, 255] 1 2)) \<and>
   rowStep 40 = 2 \<and>
   traced_colors [255, 0, 0, 255, 0, 0, 255, 255] 1 2 40 = [0xFF] \<and>
   vectorize [255, 0, 0, 255, 0, 0, 255, 255] 1 2 40 = ''<svg viewBox="0 0 1 2" xmlns="http://www.w3.org/2000/svg" shape-rendering="crispEdges"><path d="M0,0h1v2h-1z " fill="rgb(0,0,255)" /></svg>''\<close>
  by code_simp

text \<open>
  C5, amended: the document consists of one path element per traced colour, and a
  colour is traced exactly once if it is not the background colour 0 and matches a
  pixel of a sampled row (buffer row \<open>height - 1 - svgY\<close> for \<open>svgY = 0, rowStep, ...\<close> below
  \<open>height\<close>), and not at all otherwise. For simplification below 40 (\<open>rowStep = 1\<close>) every
  row is sampled, and every non-background colour of the buffer is traced exactly once.
\<close>

theorem one_shape_per_sampled_color:
  "vectorize p width height s
     = document width height
         (concat (map (\<lambda>c. path_element c
                         (scan_rows (fst (repack p width height)) width height c s 0 ''''))
            (traced_colors p width height s))) \<and>
   count_list (traced_colors p width height s) c
     = (if c \<noteq> 0 \<and> (\<exists>svgY \<in> set (sampled_rows height (rowStep s)).
                        c \<in> set (buffer_row (fst (repack p width height)) width
                                   (height - 1 - svgY)))
        then 1 else 0) \<and>
   (s < 40 \<longrightarrow>
      count_list (traced_colors p width height s) c
        = (if c \<noteq> 0 \<and> c \<in> set (fst (repack p width height)) then 1 else 0))"
proof -
  have count: "count_list (traced_colors p width height s) c
     = (if c \<noteq> 0 \<and> (\<exists>svgY \<in> set (sampled_rows height (rowStep s)).
                        c \<in> set (buffer_row (fst (repack p width height)) width
                                   (height - 1 - svgY)))
        then 1 else 0)"
    unfolding traced_colors_def
    by (simp only: count_distinct [OF distinct_shape_colors] shape_colors_mem)
  have "count_list (traced_colors p width height s) c
        = (if c \<noteq> 0 \<and> c \<in> set (fst (repack p width height)) then 1 else 0)" if "s < 40"
    unfolding count rowStep_one [OF that] all_rows_sampled [OF length_repack] ..
  with count show ?thesis
    by (simp only: vectorize_shapes traced_colors_def [symmetric]) simp
qed

theorem one_shape_per_sampled_color_witness:
  "count_list (traced_colors [255, 0, 0, 255, 0, 0, 255, 255] 1 2 0) 0xFF0000 = 1 \<and>
   count_list (traced_colors [255, 0, 0, 255, 0, 0, 255, 255] 1 2 40) 0xFF0000 = 0 \<and>
   count_list (traced_colors [255, 0, 0, 255, 0, 0, 255, 255] 1 2 40) 0xFF = 1"
proof -
  let ?p = "[255, 0, 0, 255, 0, 0, 255, 255] :: u8 list"
  have buf: "fst (repack ?p 1 2) = [0xFF0000, 0xFF]"
    by code_simp
  have red: "\<not> (\<exists>svgY \<in> set (sampled_rows 2 (rowStep 40)).
                0xFF0000 \<in> set (buffer_row [0xFF0000, 0xFF :: u32] 1 (2 - 1 - svgY)))"
    by code_simp
  have blue: "\<exists>svgY \<in> set (sampled_rows 2 (rowStep 40)).
                0xFF \<in> set (buffer_row [0xFF0000, 0xFF :: u32] 1 (2 - 1 - svgY))"
    by code_simp
  have lt: "(0 :: int) < 40"
    by simp
  have "count_list (traced_colors ?p 1 2 0) 0xFF0000
          = (if (0xFF0000 :: u32) \<noteq> 0 \<and> 0xFF0000 \<in> set (fst (repack ?p 1 2)) then 1 else 0)"
    using one_shape_per_sampled_color [of ?p 1 2 0 "0xFF0000"] lt by blast
  also have "\<dots> = 1"
    unfolding buf by simp
  finally have a: "count_list (traced_colors ?p 1 2 0) 0xFF0000 = 1" .
  have "count_list (traced_colors ?p 1 2 40) 0xFF0000
          = (if (0xFF0000 :: u32) \<noteq> 0 \<and> (\<exists>svgY \<in> set (sampled_rows 2 (rowStep 40)).
                0xFF0000 \<in> set (buffer_row (fst (repack ?p 1 2)) 1 (2 - 1 - svgY))) then 1 else 0)"
    using one_shape_per_sampled_color [of ?p 1 2 40 "0xFF0000"] by blast
  also have "\<dots> = 0"
    unfolding buf using red by simp
  finally have b: "count_list (traced_colors ?p 1 2 40) 0xFF0000 = 0" .
  have "count_list (traced_colors ?p 1 2 40) 0xFF
          = (if (0xFF :: u32) \<noteq> 0 \<and> (\<exists>svgY \<in> set (sampled_rows 2 (rowStep 40)).
                0xFF \<in> set (buffer_row (fst (repack ?p 1 2)) 1 (2 - 1 - svgY))) then 1 else 0)"
    using one_shape_per_sampled_color [of ?p 1 2 40 "0xFF"] by blast
  also have "\<dots> = 1"
    unfolding buf using blue by simp
  finally have c: "count_list (traced_colors ?p 1 2 40) 0xFF = 1" .
  from a b c show ?thesis by blast
qed

subsection \<open>Background only\<close>

text \<open>
  C7: when the quantized buffer that \<open>processOnGPU\<close> delivers holds only the background
  colour 0, \<open>traceImageOffline\<close> resolves (no error) with the document that has the
  \<open>viewBox\<close> of the image and no shape element; in particular an all-black image gives
  this document, whatever the simplification.
\<close>

theorem background_only_gives_blank_document:
  \<open>(processOnGPU e img s = Inr (p, width, height) \<and> set (fst (repack p width height)) \<subseteq> {0}
      \<longrightarrow> traceImageOffline e (Some img) s
            = Inr (''<svg viewBox="0 0 '' @ toString (int width) @ '' '' @ toString (int height)
                    @ ''" xmlns="http://www.w3.org/2000/svg" shape-rendering="crispEdges">''
                    @ ''</svg>'')) \<and>
   (webgl2 e \<and> shaders e \<and> length (samples img) = naturalWidth img * naturalHeight img \<and>
    (\<forall>p \<in> set (samples img). fst p = 0 \<and> fst (snd p) = 0 \<and> fst (snd (snd p)) = 0)
      \<longrightarrow> traceImageOffline e (Some img) s
            = Inr (''<svg viewBox="0 0 '' @ toString (int (naturalWidth img)) @ '' ''
                    @ toString (int (naturalHeight img))
                    @ ''" xmlns="http://www.w3.org/2000/svg" shape-rendering="crispEdges">''
                    @ ''</svg>''))\<close>
proof (intro conjI impI)
  assume "processOnGPU e img s = Inr (p, width, height) \<and> set (fst (repack p width height)) \<subseteq> {0}"
  then show \<open>traceImageOffline e (Some img) s
            = Inr (''<svg viewBox="0 0 '' @ toString (int width) @ '' '' @ toString (int height)
                    @ ''" xmlns="http://www.w3.org/2000/svg" shape-rendering="crispEdges">''
                    @ ''</svg>'')\<close>
    by (simp add: traceImageOffline_def blank_when_background document_def)
next
  assume a: "webgl2 e \<and> shaders e \<and> length (samples img) = naturalWidth img * naturalHeight img \<and>
    (\<forall>p \<in> set (samples img). fst p = 0 \<and> fst (snd p) = 0 \<and> fst (snd (snd p)) = 0)"
  then have "set (fst (repack (readPixels img (qFactor s)) (naturalWidth img) (naturalHeight img)))
               \<subseteq> {0}"
    by (intro black_buffer) simp_all
  with a show \<open>traceImageOffline e (Some img) s
            = Inr (''<svg viewBox="0 0 '' @ toString (int (naturalWidth img)) @ '' ''
                    @ toString (int (naturalHeight img))
                    @ ''" xmlns="http://www.w3.org/2000/svg" shape-rendering="crispEdges">''
                    @ ''</svg>'')\<close>
    by (simp add: traceImageOffline_def processOnGPU_def blank_when_background document_def)
qed

theorem background_only_gives_blank_document_witness:
  \<open>traceImageOffline browser (Some black2) 20
     = Inr ''<svg viewBox="0 0 2 2" xmlns="http://www.w3.org/2000/svg" shape-rendering="crispEdges"></svg>''\<close>
proof -
  have h: "webgl2 browser \<and> shaders browser \<and>
           length (samples black2) = naturalWidth black2 * naturalHeight black2 \<and>
           (\<forall>p \<in> set (samples black2). fst p = 0 \<and> fst (snd p) = 0 \<and> fst (snd (snd p)) = 0)"
    by (simp add: browser_def black2_def)
  have g: "processOnGPU browser black2 20 = Inr (readPixels black2 (qFactor 20), 2, 2) \<and>
           set (fst (repack (readPixels black2 (qFactor 20)) 2 2)) \<subseteq> {0}"
    using black_buffer [of black2 "qFactor 20" 2 2]
    by (simp add: processOnGPU_def browser_def black2_def)
  have t: "toString 2 = ''2''"
    by code_simp
  from background_only_gives_blank_document [of browser black2 20 "readPixels black2 (qFactor 20)" 2 2]
    h g
  have \<open>traceImageOffline browser (Some black2) 20
            = Inr (''<svg viewBox="0 0 '' @ toString (int 2) @ '' '' @ toString (int 2)
                    @ ''" xmlns="http://www.w3.org/2000/svg" shape-rendering="crispEdges">''
                    @ ''</svg>'')\<close>
    by blast
  then show ?thesis
    by (simp add: t)
qed

subsection \<open>Array accesses\<close>

text \<open>
  C10: every array access of the vectorizer is in bounds. When \<open>packedData\<close> has the
  \<open>width * height * 4\<close> bytes that \<open>processOnGPU\<close> allocates, the loops with every access
  checked (the reads \<open>packedData[srcIdx]\<close>, \<open>packedData[srcIdx + 1]\<close>, \<open>packedData[srcIdx + 2]\<close>,
  the write \<open>quantizedColors[rowOffset + x]\<close> and the reads
  \<open>quantizedColors[dataRowOffset + x]\<close>) never fail and return the document of the loops as
  written, for every width, height and simplification. The rows that the loop over \<open>svgY\<close>
  visits are below \<open>height\<close>, so the buffer row \<open>height - 1 - svgY\<close> lies in
  \<open>0 .. height - 1\<close>.
\<close>

theorem accesses_in_bounds:
  assumes "length packedData = width * height * 4"
  shows "vectorize_checked packedData width height simplification
           = Some (vectorize packedData width height simplification) \<and>
         (\<forall>color pathData.
            scan_rows (fst (repack packedData width height)) width height color simplification 0
              pathData
            = fold (scan_row (fst (repack packedData width height)) width height color
                      (rowStep simplification))
                (visited_rows height simplification 0) pathData) \<and>
         (\<forall>svgY \<in> set (visited_rows height simplification 0).
            svgY < height \<and>
            0 \<le> int height - 1 - int svgY \<and> int height - 1 - int svgY \<le> int height - 1)"
proof (intro conjI allI ballI)
  show "vectorize_checked packedData width height simplification
          = Some (vectorize packedData width height simplification)"
    by (rule vectorize_checked_agrees [OF assms])
next
  fix color pathData
  show "scan_rows (fst (repack packedData width height)) width height color simplification 0
          pathData
        = fold (scan_row (fst (repack packedData width height)) width height color
                  (rowStep simplification))
            (visited_rows height simplification 0) pathData"
    by (rule scan_rows_fold)
next
  fix svgY
  assume "svgY \<in> set (visited_rows height simplification 0)"
  then have y: "svgY < height"
    by (rule visited_rows_less)
  then show "svgY < height" .
  from y show "0 \<le> int height - 1 - int svgY" "int height - 1 - int svgY \<le> int height - 1"
    by simp_all
qed

theorem accesses_in_bounds_witness:
  "length [255, 0, 0, 255, 0, 0, 255, 255 :: u8] = 1 * 2 * 4 \<and>
   vectorize_checked [255, 0, 0, 255, 0, 0, 255, 255] 1 2 0
     = Some (vectorize [255, 0, 0, 255, 0, 0, 255, 255] 1 2 0) \<and>
   1 \<in> set (visited_rows 2 0 0) \<and> (1 :: nat) < 2 \<and> 0 \<le> int 2 - 1 - int 1"
proof -
  have len: "length [255, 0, 0, 255, 0, 0, 255, 255 :: u8] = 1 * 2 * 4"
    by simp
  have v: "1 \<in> set (visited_rows 2 0 0)"
    by code_simp
  from accesses_in_bounds [OF len, of 0] v len
  show ?thesis
    by blast
qed

end
